theory Spec2Isabelle
  imports Main "HOL-Library.Multiset"
begin

section \<open>The order book of \<^verbatim>\<open>src/artifacts/marketplace.py\<close>\<close>

subsection \<open>Prices\<close>

text \<open>
  A price is a Python number. Orders submitted by agents carry integers; the two
  placeholder orders built by \<^verbatim>\<open>OrderBook.__init__\<close> and \<^verbatim>\<open>OrderBook.reset\<close>
  carry \<^verbatim>\<open>-np.inf\<close> and \<^verbatim>\<open>np.inf\<close>. The order of \<open>number\<close> is Python's
  comparison of these values.
\<close>

datatype number = NegInf | Fin int | PosInf

instantiation number :: linorder
begin

fun less_eq_number :: "number \<Rightarrow> number \<Rightarrow> bool" where
  "less_eq_number NegInf y = True"
| "less_eq_number (Fin a) NegInf = False"
| "less_eq_number (Fin a) (Fin b) = (a \<le> b)"
| "less_eq_number (Fin a) PosInf = True"
| "less_eq_number PosInf NegInf = False"
| "less_eq_number PosInf (Fin b) = False"
| "less_eq_number PosInf PosInf = True"

definition less_number :: "number \<Rightarrow> number \<Rightarrow> bool" where
  "less_number x y = (x \<le> y \<and> \<not> y \<le> x)"

instance
proof
  fix x y z :: number
  show "(x < y) = (x \<le> y \<and> \<not> y \<le> x)"
    by (simp add: less_number_def)
  show "x \<le> x"
    by (cases x) simp_all
  show "x \<le> y \<Longrightarrow> y \<le> z \<Longrightarrow> x \<le> z"
    by (cases x; cases y; cases z) simp_all
  show "x \<le> y \<Longrightarrow> y \<le> x \<Longrightarrow> x = y"
    by (cases x; cases y) simp_all
  show "x \<le> y \<or> y \<le> x"
    by (cases x; cases y) auto
qed

end

subsection \<open>Agents, orders, events, the trade ledger\<close>

text \<open>
  An agent is a reference to an \<^verbatim>\<open>Agent\<close> object, compared by identity.
  \<open>Agent n\<close> is an agent of the simulation; \<open>Placeholder n\<close> is the \<open>n\<close>-th
  object made by a call \<^verbatim>\<open>Agent()\<close> of the order book itself.
\<close>

datatype agent = Agent nat | Placeholder nat

text \<open>
  The dataclass \<^verbatim>\<open>Order\<close>. The field \<^verbatim>\<open>id\<close> is \<open>order_id\<close> here
  (\<open>None\<close> until \<^verbatim>\<open>OrderBook.add\<close> assigns it). Equality of records is the
  field-wise equality that the dataclass generates, which \<^verbatim>\<open>list.remove\<close> uses.
  Orders are values here: every submission is a new \<^verbatim>\<open>Order\<close> object, as the ones
  \<^verbatim>\<open>Marketplace.execute\<close> builds from a tuple are.
\<close>

record order =
  good :: string
  price :: number
  quantity :: int
  agent :: agent
  order_id :: "nat option"

text \<open>The dataclass \<^verbatim>\<open>MarketPlaceTransaction\<close>, an event with a step number.\<close>

record MarketPlaceTransaction =
  seller_agent :: agent
  buyer_agent :: agent
  event_good :: string
  event_quantity :: int
  event_price :: number
  event_step :: nat

text \<open>
  The data frame \<^verbatim>\<open>history\<close>: its column names and its rows. A row holds the
  five values that \<^verbatim>\<open>execute\<close> writes; \<^verbatim>\<open>pd.concat\<close> keeps the columns of the
  left frame and adds the new ones of the right frame after them.
\<close>

record trade_row =
  transaction_id :: nat
  row_price :: number
  row_quantity :: int
  buyer :: string
  seller :: string

record dataframe =
  columns :: "string list"
  rows :: "trade_row list"

definition pd_concat :: "dataframe \<Rightarrow> dataframe \<Rightarrow> dataframe" where
  "pd_concat df1 df2 =
     \<lparr>columns = columns df1 @ filter (\<lambda>c. c \<notin> set (columns df1)) (columns df2),
      rows = rows df1 @ rows df2\<rparr>"

text \<open>
  The class \<^verbatim>\<open>Agent\<close> is imported from \<^verbatim>\<open>src.core\<close> and is not part of the
  sources at hand. The order book uses three things of it, which are parameters of
  the model: the balance query \<^verbatim>\<open>get_amounts\<close>, the bilateral transfer
  \<^verbatim>\<open>trade\<close> (called as \<^verbatim>\<open>a.trade(leg1, leg2, other)\<close>) and the attribute
  \<^verbatim>\<open>name\<close>. The type \<open>'l\<close> is the state of all agents' inventories.
\<close>

record 'l agent_api =
  get_amounts :: "'l \<Rightarrow> agent \<Rightarrow> string \<Rightarrow> int"
  trade :: "'l \<Rightarrow> agent \<Rightarrow> string \<times> number \<Rightarrow> string \<times> number \<Rightarrow> agent \<Rightarrow> 'l"
  agent_name :: "agent \<Rightarrow> string"

subsection \<open>The state of an order book\<close>

text \<open>
  One field per attribute of \<^verbatim>\<open>OrderBook\<close>, and \<open>agents_created\<close>, the number
  of \<^verbatim>\<open>Agent()\<close> objects the book has made so far, which names the next one.
\<close>

record order_book =
  product_name :: string
  sell_orders :: "order list"
  buy_orders :: "order list"
  highest_bid_order :: order
  lowest_offer_order :: order
  order_count :: nat
  num_transactions :: nat
  history :: dataframe
  best_bid_history :: "number list"
  best_ask_history :: "number list"
  event_history :: "MarketPlaceTransaction list"
  agents_created :: nat

datatype error = ValueError

definition Order :: "string \<Rightarrow> number \<Rightarrow> int \<Rightarrow> agent \<Rightarrow> order" where
  "Order g p q a = \<lparr>good = g, price = p, quantity = q, agent = a, order_id = None\<rparr>"

definition OrderBook_init :: "string \<Rightarrow> order_book" where
  "OrderBook_init name =
     \<lparr>product_name = name,
      sell_orders = [],
      buy_orders = [],
      highest_bid_order = Order name NegInf 1 (Placeholder 0),
      lowest_offer_order = Order name PosInf (- 1) (Placeholder 1),
      order_count = 0,
      num_transactions = 0,
      history = \<lparr>columns = [''transaction_id'', ''price'', ''quantity'',
                            ''buying_agent'', ''selling_agent''], rows = []\<rparr>,
      best_bid_history = [],
      best_ask_history = [],
      event_history = [],
      agents_created = 2\<rparr>"

text \<open>
  \<^verbatim>\<open>reset\<close> assigns the two order lists, the two cached orders, the two counters
  and the data frame, and no other attribute.
\<close>

definition OrderBook_reset :: "order_book \<Rightarrow> order_book" where
  "OrderBook_reset b =
     b\<lparr>sell_orders := [],
       buy_orders := [],
       highest_bid_order := Order (product_name b) NegInf 1 (Placeholder (agents_created b)),
       lowest_offer_order :=
         Order (product_name b) PosInf (- 1) (Placeholder (agents_created b + 1)),
       order_count := 0,
       num_transactions := 0,
       history := \<lparr>columns = [''transaction_id'', ''price'', ''quantity'',
                              ''buyer'', ''seller''], rows = []\<rparr>,
       agents_created := agents_created b + 2\<rparr>"

subsection \<open>Legitimacy\<close>

definition is_order_legitimate ::
  "'l agent_api \<Rightarrow> 'l \<Rightarrow> order_book \<Rightarrow> order \<Rightarrow> bool \<Rightarrow> bool" where
  "is_order_legitimate A L b ord is_buy_order =
     (if quantity ord = 0 then False
      else if is_buy_order \<and> price ord \<le> Fin (get_amounts A L (agent ord) ''capital'')
        then True
      else if \<not> is_buy_order \<and>
              \<bar>quantity ord\<bar> \<le> get_amounts A L (agent ord) (product_name b)
        then True
      else False)"

subsection \<open>Removing the resting orders of the submitting agent\<close>

text \<open>
  \<^verbatim>\<open>for existing_order in xs: if existing_order.agent == a: xs.remove(existing_order)\<close>.
  Python's list iterator keeps an index \<open>i\<close>, reads \<open>xs[i]\<close> while \<open>i < len(xs)\<close>
  and then advances, whatever the body did to the list; \<^verbatim>\<open>remove\<close> deletes the
  first element equal to its argument. So the element that follows a removed one is
  not visited.
\<close>

function remove_loop :: "agent \<Rightarrow> order list \<Rightarrow> nat \<Rightarrow> order list" where
  "remove_loop a xs i =
     (if i < length xs
      then (if agent (xs ! i) = a
            then remove_loop a (remove1 (xs ! i) xs) (Suc i)
            else remove_loop a xs (Suc i))
      else xs)"
  by pat_completeness auto
termination
  by (relation "measure (\<lambda>(a, xs, i). length xs - i)") (auto simp: length_remove1)

declare remove_loop.simps [simp del]

definition should_remove_existing_order :: "order_book \<Rightarrow> order \<Rightarrow> order_book" where
  "should_remove_existing_order b ord =
     (let b1 = b\<lparr>sell_orders := remove_loop (agent ord) (sell_orders b) 0\<rparr>
      in b1\<lparr>buy_orders := remove_loop (agent ord) (buy_orders b1) 0\<rparr>)"

subsection \<open>Execution\<close>

text \<open>
  \<^verbatim>\<open>execute\<close> calls \<^verbatim>\<open>trade\<close> first and then \<^verbatim>\<open>list.remove\<close>, which raises
  \<^verbatim>\<open>ValueError\<close> when the book order is not in the list. It returns \<^verbatim>\<open>True\<close>.
  An exception is the result \<open>Inl\<close>: nothing in the sources catches it, and the model
  keeps no state after it. \<open>record_trade\<close> is the end of \<^verbatim>\<open>execute\<close>, common to
  its two branches: the new row of \<^verbatim>\<open>history\<close> and the trade counter. The test
  \<^verbatim>\<open>isinstance(order, Order)\<close> of \<^verbatim>\<open>_can_order_be_executed\<close> holds of every value
  of the type \<open>order\<close>.
\<close>

definition record_trade :: "'l agent_api \<Rightarrow> order_book \<Rightarrow> order \<Rightarrow> order \<Rightarrow> order_book" where
  "record_trade A b incoming_order book_order =
     (let transaction_price = price book_order;
          is_incoming_buy_order = (0 \<le> quantity incoming_order);
          transaction_quantity = min \<bar>quantity incoming_order\<bar> \<bar>quantity book_order\<bar>;
          row = \<lparr>transaction_id = num_transactions b,
                 row_price = transaction_price,
                 row_quantity = transaction_quantity,
                 buyer = (if is_incoming_buy_order then agent_name A (agent incoming_order)
                          else agent_name A (agent book_order)),
                 seller = (if \<not> is_incoming_buy_order then agent_name A (agent incoming_order)
                           else agent_name A (agent book_order))\<rparr>
      in b\<lparr>history := pd_concat (history b)
                          \<lparr>columns = [''transaction_id'', ''price'', ''quantity'',
                                      ''buyer'', ''seller''], rows = [row]\<rparr>,
           num_transactions := num_transactions b + 1\<rparr>)"

definition execute ::
  "'l agent_api \<Rightarrow> 'l \<Rightarrow> order_book \<Rightarrow> order \<Rightarrow> order \<Rightarrow> error + (bool \<times> 'l \<times> order_book)" where
  "execute A L b incoming_order book_order =
     (let transaction_price = price book_order;
          is_incoming_buy_order = (0 \<le> quantity incoming_order);
          transaction_quantity = min \<bar>quantity incoming_order\<bar> \<bar>quantity book_order\<bar>
      in if is_incoming_buy_order
         then (let L' = trade A L (agent incoming_order)
                          (''capital'', transaction_price)
                          (product_name b, Fin transaction_quantity)
                          (agent book_order)
               in if book_order \<in> set (sell_orders b)
                  then (let b1 = b\<lparr>sell_orders := remove1 book_order (sell_orders b)\<rparr>;
                            b2 = b1\<lparr>event_history := event_history b1 @
                                   [\<lparr>seller_agent = agent book_order,
                                     buyer_agent = agent incoming_order,
                                     event_good = product_name b1,
                                     event_quantity = transaction_quantity,
                                     event_price = transaction_price,
                                     event_step = 0\<rparr>]\<rparr>
                        in Inr (True, L', record_trade A b2 incoming_order book_order))
                  else Inl ValueError)
         else (let L' = trade A L (agent incoming_order)
                          (product_name b, Fin transaction_quantity)
                          (''capital'', transaction_price)
                          (agent book_order)
               in if book_order \<in> set (buy_orders b)
                  then (let b1 = b\<lparr>buy_orders := remove1 book_order (buy_orders b)\<rparr>;
                            b2 = b1\<lparr>event_history := event_history b1 @
                                   [\<lparr>seller_agent = agent incoming_order,
                                     buyer_agent = agent book_order,
                                     event_good = product_name b1,
                                     event_quantity = transaction_quantity,
                                     event_price = transaction_price,
                                     event_step = 0\<rparr>]\<rparr>
                        in Inr (True, L', record_trade A b2 incoming_order book_order))
                  else Inl ValueError))"

definition can_order_be_executed ::
  "'l agent_api \<Rightarrow> 'l \<Rightarrow> order_book \<Rightarrow> order \<Rightarrow> bool \<Rightarrow> error + (bool \<times> 'l \<times> order_book)" where
  "can_order_be_executed A L b ord is_buy_order =
     (if (is_buy_order \<and> length (sell_orders b) = 0) \<or>
         (\<not> is_buy_order \<and> length (buy_orders b) = 0)
      then Inr (False, L, b)
      else if is_buy_order \<and> price (lowest_offer_order b) \<le> price ord
        then execute A L b ord (lowest_offer_order b)
      else if \<not> is_buy_order \<and> price ord \<le> price (highest_bid_order b)
        then execute A L b ord (highest_bid_order b)
      else Inr (False, L, b))"

subsection \<open>Admission\<close>

text \<open>
  \<^verbatim>\<open>sorted(xs, key=price)\<close> is a stable sort, and \<^verbatim>\<open>sorted(xs, key=price, reverse=True)\<close>
  is the stable sort of the reversed list, reversed: equal keys keep the order they
  had in \<open>xs\<close> in both. \<open>rest_order\<close> and \<open>refresh_best\<close> are the two steps of
  \<^verbatim>\<open>add\<close> after the match: the order that was not executed is appended to its
  side, and each side that is not empty is sorted and its first order cached.
\<close>

definition sorted_ascending :: "order list \<Rightarrow> order list" where
  "sorted_ascending xs = sort_key price xs"

definition sorted_descending :: "order list \<Rightarrow> order list" where
  "sorted_descending xs = rev (sort_key price (rev xs))"

definition rest_order :: "order_book \<Rightarrow> order \<Rightarrow> bool \<Rightarrow> order_book" where
  "rest_order b ord is_buy_order =
     (if is_buy_order then b\<lparr>buy_orders := buy_orders b @ [ord]\<rparr>
      else b\<lparr>sell_orders := sell_orders b @ [ord]\<rparr>)"

definition refresh_best :: "order_book \<Rightarrow> order_book" where
  "refresh_best b =
     (let b1 = (if length (buy_orders b) \<noteq> 0
                then (let s = sorted_descending (buy_orders b)
                      in b\<lparr>buy_orders := s, highest_bid_order := s ! 0\<rparr>)
                else b)
      in if length (sell_orders b1) \<noteq> 0
         then (let s = sorted_ascending (sell_orders b1)
               in b1\<lparr>sell_orders := s, lowest_offer_order := s ! 0\<rparr>)
         else b1)"

definition OrderBook_add ::
  "'l agent_api \<Rightarrow> 'l \<Rightarrow> order_book \<Rightarrow> order \<Rightarrow> error + ('l \<times> order_book)" where
  "OrderBook_add A L b ord0 =
     (let ord = ord0\<lparr>order_id := Some (order_count b)\<rparr>;
          b1 = b\<lparr>order_count := order_count b + 1\<rparr>;
          is_buy_order = (0 \<le> quantity ord);
          order_is_legitimate = is_order_legitimate A L b1 ord is_buy_order;
          b2 = should_remove_existing_order b1 ord
      in if order_is_legitimate
         then (case can_order_be_executed A L b2 ord is_buy_order of
                 Inl e \<Rightarrow> Inl e
               | Inr (order_was_executed, L', b3) \<Rightarrow>
                   Inr (L', refresh_best
                              (if \<not> order_was_executed then rest_order b3 ord is_buy_order
                               else b3)))
         else Inr (L, b2))"

subsection \<open>Snapshots and inspection\<close>

definition OrderBook_step :: "order_book \<Rightarrow> order_book" where
  "OrderBook_step b =
     (let b1 = b\<lparr>best_bid_history := best_bid_history b @ [price (highest_bid_order b)]\<rparr>
      in b1\<lparr>best_ask_history := best_ask_history b1 @ [price (lowest_offer_order b1)]\<rparr>)"

definition get_full_orderbook :: "order_book \<Rightarrow> (number \<times> int) list" where
  "get_full_orderbook b =
     map (\<lambda>ord. (price ord, quantity ord)) (buy_orders b) @
     map (\<lambda>ord. (price ord, quantity ord)) (sell_orders b)"

subsection \<open>The states an order book can be in\<close>

text \<open>
  A book starts as \<^verbatim>\<open>__init__\<close> leaves it and changes by \<^verbatim>\<open>add\<close> (when it
  returns), \<^verbatim>\<open>step\<close> and \<^verbatim>\<open>reset\<close>. The inventories \<open>L\<close> at each \<^verbatim>\<open>add\<close>
  are arbitrary: agents also trade outside the book.
\<close>

inductive reachable :: "'l agent_api \<Rightarrow> order_book \<Rightarrow> bool" for A :: "'l agent_api" where
  init: "reachable A (OrderBook_init name)"
| add: "reachable A b \<Longrightarrow> OrderBook_add A L b ord = Inr (L', b') \<Longrightarrow> reachable A b'"
| step: "reachable A b \<Longrightarrow> reachable A (OrderBook_step b)"
| reset: "reachable A b \<Longrightarrow> reachable A (OrderBook_reset b)"

text \<open>
  The condition under which \<^verbatim>\<open>_can_order_be_executed\<close> calls \<^verbatim>\<open>execute\<close>, and
  the order it passes as \<^verbatim>\<open>book_order\<close>.
\<close>

definition crosses :: "order_book \<Rightarrow> order \<Rightarrow> bool" where
  "crosses b ord =
     (if 0 \<le> quantity ord
      then sell_orders b \<noteq> [] \<and> price (lowest_offer_order b) \<le> price ord
      else buy_orders b \<noteq> [] \<and> price ord \<le> price (highest_bid_order b))"

definition matched_order :: "order_book \<Rightarrow> order \<Rightarrow> order" where
  "matched_order b ord =
     (if 0 \<le> quantity ord then lowest_offer_order b else highest_bid_order b)"

text \<open>\<open>admitted_before x y\<close>: both orders have their ids, and the id of \<open>x\<close> is the smaller.\<close>

definition admitted_before :: "order \<Rightarrow> order \<Rightarrow> bool" where
  "admitted_before x y =
     (case order_id x of
        None \<Rightarrow> False
      | Some i \<Rightarrow> (case order_id y of None \<Rightarrow> False | Some j \<Rightarrow> i < j))"

definition descending_by_price :: "order list \<Rightarrow> bool" where
  "descending_by_price xs =
     sorted_wrt (\<lambda>x y. price y < price x \<or> (price x = price y \<and> admitted_before x y)) xs"

definition ascending_by_price :: "order list \<Rightarrow> bool" where
  "ascending_by_price xs =
     sorted_wrt (\<lambda>x y. price x < price y \<or> (price x = price y \<and> admitted_before x y)) xs"

text \<open>The resting orders of an agent, on both sides.\<close>

definition resting_orders_of :: "order_book \<Rightarrow> agent \<Rightarrow> order list" where
  "resting_orders_of b a = filter (\<lambda>x. agent x = a) (buy_orders b @ sell_orders b)"

subsection \<open>Submitting several orders\<close>

text \<open>
  The orders of a list are added in turn, each with the inventories the one before
  left; the first exception ends the run.
\<close>

fun submit_all ::
  "'l agent_api \<Rightarrow> 'l \<Rightarrow> order_book \<Rightarrow> order list \<Rightarrow> error + ('l \<times> order_book)" where
  "submit_all A L b [] = Inr (L, b)"
| "submit_all A L b (ord # ords) =
     (case OrderBook_add A L b ord of
        Inl e \<Rightarrow> Inl e
      | Inr (L', b') \<Rightarrow> submit_all A L' b' ords)"

subsection \<open>The invariant of the two sides\<close>

text \<open>
  \<open>ties_in_order\<close>: the orders of each price stand in the order of their admission.
  \<open>weak_inv n\<close> holds between the removal of the agent's orders and the sorting:
  no two resting orders have the same agent, ties are in order, and every id is
  below \<open>n\<close>. \<open>book_inv\<close> adds that both sides are sorted by price.
\<close>

definition ties_in_order :: "order list \<Rightarrow> bool" where
  "ties_in_order xs = (\<forall>k. sorted_wrt admitted_before (filter (\<lambda>y. price y = k) xs))"

definition id_below :: "nat \<Rightarrow> order \<Rightarrow> bool" where
  "id_below n x = (case order_id x of None \<Rightarrow> False | Some i \<Rightarrow> i < n)"

definition weak_inv :: "nat \<Rightarrow> order list \<Rightarrow> order list \<Rightarrow> bool" where
  "weak_inv n bs ss \<longleftrightarrow>
     distinct (map agent (bs @ ss)) \<and> ties_in_order bs \<and> ties_in_order ss \<and>
     (\<forall>x \<in> set bs. id_below n x) \<and> (\<forall>x \<in> set ss. id_below n x)"

definition book_inv :: "order_book \<Rightarrow> bool" where
  "book_inv b \<longleftrightarrow>
     weak_inv (order_count b) (buy_orders b) (sell_orders b) \<and>
     sorted (rev (map price (buy_orders b))) \<and> sorted (map price (sell_orders b))"

text \<open>
  The cached best orders bound the prices of their sides, and a cached order that
  still rests is the first of its side.
\<close>

definition best_inv :: "order_book \<Rightarrow> bool" where
  "best_inv b \<longleftrightarrow>
     (\<forall>x \<in> set (sell_orders b). price (lowest_offer_order b) \<le> price x) \<and>
     (lowest_offer_order b \<in> set (sell_orders b) \<longrightarrow>
        lowest_offer_order b = hd (sell_orders b)) \<and>
     (\<forall>x \<in> set (buy_orders b). price x \<le> price (highest_bid_order b)) \<and>
     (highest_bid_order b \<in> set (buy_orders b) \<longrightarrow>
        highest_bid_order b = hd (buy_orders b))"

subsection \<open>A ledger to run the book on\<close>

text \<open>
  Modelled from the spec: the class \<^verbatim>\<open>Agent\<close> (\<^verbatim>\<open>get_amounts\<close>, \<^verbatim>\<open>trade\<close>,
  \<^verbatim>\<open>name\<close>) is missing from the sources. Section 6 of the specification gives the
  ledger interface as a balance query and an atomic bilateral exchange
  \<^verbatim>\<open>transfer(leg_out, leg_in, counterparty)\<close>: the caller gives \<open>leg_out\<close> to the
  counterparty and receives \<open>leg_in\<close> from it. The inventories below hold integers,
  so an exchange with an infinite amount is left out (the ledger stays as it is).
\<close>

type_synonym inventories = "agent \<Rightarrow> string \<Rightarrow> int"

definition add_amount :: "inventories \<Rightarrow> agent \<Rightarrow> string \<Rightarrow> int \<Rightarrow> inventories" where
  "add_amount L a g n = L(a := (L a)(g := L a g + n))"

definition ledger_trade ::
  "inventories \<Rightarrow> agent \<Rightarrow> string \<times> number \<Rightarrow> string \<times> number \<Rightarrow> agent \<Rightarrow> inventories" where
  "ledger_trade L a leg_out leg_in c =
     (case snd leg_out of
        Fin n_out \<Rightarrow>
          (case snd leg_in of
             Fin n_in \<Rightarrow>
               add_amount (add_amount (add_amount (add_amount L
                 a (fst leg_out) (- n_out)) c (fst leg_out) n_out)
                 a (fst leg_in) n_in) c (fst leg_in) (- n_in)
           | _ \<Rightarrow> L)
      | _ \<Rightarrow> L)"

definition ledger_name :: "agent \<Rightarrow> string" where
  "ledger_name a =
     (case a of
        Agent n \<Rightarrow> (if n = 0 then ''alice'' else if n = 1 then ''bob'' else ''carol'')
      | Placeholder n \<Rightarrow> ''default'')"

definition ledger_api :: "inventories agent_api" where
  "ledger_api =
     \<lparr>get_amounts = (\<lambda>L a g. L a g), trade = ledger_trade, agent_name = ledger_name\<rparr>"

text \<open>Every agent holds 100 of everything.\<close>

definition rich :: inventories where
  "rich = (\<lambda>a g. 100)"

text \<open>
  The inventories and the book after the orders \<open>ords\<close> were submitted to a new book
  for the good \<open>G\<close> by agents that hold 100 of everything (the new book and the first
  inventories when the run raises).
\<close>

definition ledger_after :: "order list \<Rightarrow> inventories" where
  "ledger_after ords =
     (case submit_all ledger_api rich (OrderBook_init ''G'') ords of
        Inl e \<Rightarrow> rich
      | Inr (L, b) \<Rightarrow> L)"

definition book_after :: "order list \<Rightarrow> order_book" where
  "book_after ords =
     (case submit_all ledger_api rich (OrderBook_init ''G'') ords of
        Inl e \<Rightarrow> OrderBook_init ''G''
      | Inr (L, b) \<Rightarrow> b)"

section \<open>Lemmas\<close>

subsection \<open>The removal loop\<close>

text \<open>
  With one resting order per agent at most, the loop removes exactly the orders of the agent: the element it skips after a removal belongs to another agent.
\<close>

lemma remove_loop_unchanged:
  "\<forall>x \<in> set (drop i xs). agent x \<noteq> a \<Longrightarrow> remove_loop a xs i = xs"
proof (induction a xs i rule: remove_loop.induct)
  case (1 a xs i)
  show ?case
  proof (cases "i < length xs")
    case True
    then have "xs ! i \<in> set (drop i xs)"
      by (metis Cons_nth_drop_Suc list.set_intros(1))
    with "1.prems" have ne: "agent (xs ! i) \<noteq> a" by blast
    have "\<forall>x \<in> set (drop (Suc i) xs). agent x \<noteq> a"
      using "1.prems" set_drop_subset_set_drop [of i "Suc i" xs] by auto
    with "1.IH"(2) True ne have "remove_loop a xs (Suc i) = xs" by blast
    with True ne show ?thesis by (subst remove_loop.simps) simp
  next
    case False
    then show ?thesis by (subst remove_loop.simps) simp
  qed
qed

lemma remove1_nth_distinct:
  "distinct xs \<Longrightarrow> i < length xs \<Longrightarrow> remove1 (xs ! i) xs = take i xs @ drop (Suc i) xs"
proof (induction xs arbitrary: i)
  case Nil
  then show ?case by simp
next
  case (Cons x xs)
  show ?case
  proof (cases i)
    case 0
    then show ?thesis by simp
  next
    case (Suc j)
    with Cons.prems have "xs ! j \<noteq> x" by auto
    with Cons Suc show ?thesis by auto
  qed
qed

lemma remove_loop_distinct:
  "distinct (map agent xs) \<Longrightarrow>
   remove_loop a xs i = take i xs @ filter (\<lambda>x. agent x \<noteq> a) (drop i xs)"
proof (induction a xs i rule: remove_loop.induct)
  case (1 a xs i)
  show ?case
  proof (cases "i < length xs")
    case False
    then show ?thesis by (subst remove_loop.simps) simp
  next
    case True
    then have split: "drop i xs = xs ! i # drop (Suc i) xs"
      by (simp add: Cons_nth_drop_Suc)
    show ?thesis
    proof (cases "agent (xs ! i) = a")
      case False
      from "1.IH"(2) [OF True False "1.prems"] True False show ?thesis
        by (subst remove_loop.simps) (simp add: split take_Suc_conv_app_nth)
    next
      case hit: True
      have dx: "distinct xs" using "1.prems" by (simp add: distinct_map)
      have inj: "inj_on agent (set xs)" using "1.prems" by (simp add: distinct_map)
      have rm: "remove1 (xs ! i) xs = take i xs @ drop (Suc i) xs"
        using dx True by (rule remove1_nth_distinct)
      have others: "\<forall>x \<in> set (drop (Suc i) xs). agent x \<noteq> a"
      proof
        fix x assume x: "x \<in> set (drop (Suc i) xs)"
        have "distinct (drop i xs)" using dx by simp
        with split x have "x \<noteq> xs ! i" by auto
        moreover have "x \<in> set xs" using x by (rule in_set_dropD)
        moreover have "xs ! i \<in> set xs" using True by simp
        ultimately show "agent x \<noteq> a" using inj hit by (auto dest: inj_onD)
      qed
      have "\<forall>x \<in> set (drop (Suc i) (take i xs @ drop (Suc i) xs)). agent x \<noteq> a"
      proof
        fix x assume "x \<in> set (drop (Suc i) (take i xs @ drop (Suc i) xs))"
        then have "x \<in> set (drop (Suc i) xs)"
          using True set_drop_subset_set_drop [of "Suc i" "Suc (Suc i)" xs] by auto
        with others show "agent x \<noteq> a" by blast
      qed
      then have "remove_loop a (take i xs @ drop (Suc i) xs) (Suc i) = take i xs @ drop (Suc i) xs"
        by (rule remove_loop_unchanged)
      moreover have "filter (\<lambda>x. agent x \<noteq> a) (drop (Suc i) xs) = drop (Suc i) xs"
        using others by (simp add: filter_id_conv)
      ultimately show ?thesis using True hit rm
        by (subst remove_loop.simps) (simp add: split)
    qed
  qed
qed

text \<open>
  Without that, the loop can leave an order of the agent behind: of two adjacent
  orders of one agent it removes the first and steps over the second.
\<close>

lemma remove_loop_skips:
  "remove_loop (Agent 0)
     [Order ''G'' (Fin 1) 1 (Agent 0), Order ''G'' (Fin 2) 1 (Agent 0)] 0 =
     [Order ''G'' (Fin 2) 1 (Agent 0)]"
  by (simp add: remove_loop.simps Order_def)

lemma remove_loop_filter:
  "distinct (map agent xs) \<Longrightarrow> remove_loop a xs 0 = filter (\<lambda>x. agent x \<noteq> a) xs"
  by (simp add: remove_loop_distinct)

lemma should_remove_existing_order_id:
  "should_remove_existing_order b (ord\<lparr>order_id := i\<rparr>) = should_remove_existing_order b ord"
  by (simp add: should_remove_existing_order_def)

lemma should_remove_existing_order_filter:
  assumes "distinct (map agent (buy_orders b @ sell_orders b))"
  shows "should_remove_existing_order b ord =
         b\<lparr>sell_orders := filter (\<lambda>x. agent x \<noteq> agent ord) (sell_orders b),
           buy_orders := filter (\<lambda>x. agent x \<noteq> agent ord) (buy_orders b)\<rparr>"
  using assms by (simp add: should_remove_existing_order_def Let_def remove_loop_filter)

lemma purged_fields:
  "num_transactions (should_remove_existing_order b x) = num_transactions b"
  "history (should_remove_existing_order b x) = history b"
  "event_history (should_remove_existing_order b x) = event_history b"
  "highest_bid_order (should_remove_existing_order b x) = highest_bid_order b"
  "lowest_offer_order (should_remove_existing_order b x) = lowest_offer_order b"
  "product_name (should_remove_existing_order b x) = product_name b"
  "best_bid_history (should_remove_existing_order b x) = best_bid_history b"
  "best_ask_history (should_remove_existing_order b x) = best_ask_history b"
  by (simp_all add: should_remove_existing_order_def Let_def)

lemma purged_count_irrelevant:
  "buy_orders (should_remove_existing_order (b\<lparr>order_count := n\<rparr>) x) =
     buy_orders (should_remove_existing_order b x)"
  "sell_orders (should_remove_existing_order (b\<lparr>order_count := n\<rparr>) x) =
     sell_orders (should_remove_existing_order b x)"
  "crosses (should_remove_existing_order (b\<lparr>order_count := n\<rparr>) x) ord =
     crosses (should_remove_existing_order b x) ord"
  "matched_order (should_remove_existing_order (b\<lparr>order_count := n\<rparr>) x) ord =
     matched_order b ord"
  by (simp_all add: should_remove_existing_order_def Let_def crosses_def matched_order_def)

lemma purged_order_count:
  "order_count (should_remove_existing_order b ord) = order_count b"
  by (simp add: should_remove_existing_order_def Let_def)

lemma purged_no_agent:
  assumes "distinct (map agent (buy_orders b @ sell_orders b))"
  shows "agent ord \<notin> agent ` set (buy_orders (should_remove_existing_order b ord) @
                                   sell_orders (should_remove_existing_order b ord))"
  using assms by (auto simp: should_remove_existing_order_filter)

subsection \<open>Sorting by price\<close>

text \<open>
  A list is in price order with ties in order of admission iff its prices are sorted and the orders of each price are in order of admission; a stable sort keeps the second and establishes the first.
\<close>

lemma lex_from_groups:
  assumes "sorted_wrt (\<lambda>x y. S (f x) (f y)) ys"
    and "\<And>k. sorted_wrt R (filter (\<lambda>y. f y = k) ys)"
  shows "sorted_wrt (\<lambda>x y. S (f x) (f y) \<and> (f x = f y \<longrightarrow> R x y)) ys"
  using assms
proof (induction ys)
  case Nil
  then show ?case by simp
next
  case (Cons y ys)
  have tail: "sorted_wrt R (filter (\<lambda>z. f z = k) ys)" for k
    using Cons.prems(2) [of k] by (cases "f y = k") simp_all
  have head: "R y z" if "z \<in> set ys" "f y = f z" for z
    using Cons.prems(2) [of "f y"] that by simp
  from Cons.prems(1) have "sorted_wrt (\<lambda>x y. S (f x) (f y)) ys" by simp
  with Cons.IH tail
  have "sorted_wrt (\<lambda>x y. S (f x) (f y) \<and> (f x = f y \<longrightarrow> R x y)) ys" by blast
  with Cons.prems(1) head show ?case by auto
qed

lemma groups_from_lex:
  assumes "sorted_wrt (\<lambda>x y. S (f x) (f y) \<and> (f x = f y \<longrightarrow> R x y)) ys"
  shows "sorted_wrt R (filter (\<lambda>y. f y = k) ys)"
proof -
  from assms
  have "sorted_wrt (\<lambda>x y. S (f x) (f y) \<and> (f x = f y \<longrightarrow> R x y)) (filter (\<lambda>y. f y = k) ys)"
    by (rule sorted_wrt_filter)
  then show ?thesis
    by (rule sorted_wrt_mono_rel [rotated]) auto
qed

lemma ascending_by_price_iff:
  "ascending_by_price xs \<longleftrightarrow> sorted (map price xs) \<and> ties_in_order xs"
proof
  assume a: "ascending_by_price xs"
  have eq: "(\<lambda>x y. price x < price y \<or> (price x = price y \<and> admitted_before x y)) =
        (\<lambda>x y. price x \<le> price y \<and> (price x = price y \<longrightarrow> admitted_before x y))"
    by (auto simp: fun_eq_iff)
  from a have l: "sorted_wrt (\<lambda>x y. price x \<le> price y \<and> (price x = price y \<longrightarrow> admitted_before x y)) xs"
    by (simp add: ascending_by_price_def eq)
  then have "sorted_wrt (\<lambda>x y. price x \<le> price y) xs"
    by (rule sorted_wrt_mono_rel [rotated]) simp
  then have "sorted (map price xs)" by (simp add: sorted_map)
  moreover have "ties_in_order xs"
    unfolding ties_in_order_def using groups_from_lex [where S = "(\<le>)" and f = price, OF l] by blast
  ultimately show "sorted (map price xs) \<and> ties_in_order xs" ..
next
  assume r: "sorted (map price xs) \<and> ties_in_order xs"
  have eq: "(\<lambda>x y. price x < price y \<or> (price x = price y \<and> admitted_before x y)) =
        (\<lambda>x y. price x \<le> price y \<and> (price x = price y \<longrightarrow> admitted_before x y))"
    by (auto simp: fun_eq_iff)
  from r have "sorted_wrt (\<lambda>x y. price x \<le> price y) xs" by (simp add: sorted_map)
  moreover from r have "\<And>k. sorted_wrt admitted_before (filter (\<lambda>y. price y = k) xs)"
    by (simp add: ties_in_order_def)
  ultimately have "sorted_wrt (\<lambda>x y. price x \<le> price y \<and> (price x = price y \<longrightarrow> admitted_before x y)) xs"
    by (rule lex_from_groups [where S = "(\<le>)" and f = price])
  then show "ascending_by_price xs" by (simp add: ascending_by_price_def eq)
qed

lemma sorted_rev_map:
  "sorted (rev (map f xs)) = sorted_wrt (\<lambda>x y. f y \<le> f x) xs"
  by (simp add: sorted_wrt_rev sorted_wrt_map)

lemma descending_by_price_iff:
  "descending_by_price xs \<longleftrightarrow> sorted (rev (map price xs)) \<and> ties_in_order xs"
proof
  assume a: "descending_by_price xs"
  have eq: "(\<lambda>x y. price y < price x \<or> (price x = price y \<and> admitted_before x y)) =
        (\<lambda>x y. price y \<le> price x \<and> (price x = price y \<longrightarrow> admitted_before x y))"
    by (auto simp: fun_eq_iff)
  from a have l: "sorted_wrt (\<lambda>x y. price y \<le> price x \<and> (price x = price y \<longrightarrow> admitted_before x y)) xs"
    by (simp add: descending_by_price_def eq)
  then have "sorted_wrt (\<lambda>x y. price y \<le> price x) xs"
    by (rule sorted_wrt_mono_rel [rotated]) simp
  then have "sorted (rev (map price xs))"
    by (simp add: sorted_rev_map)
  moreover have "ties_in_order xs"
    unfolding ties_in_order_def using groups_from_lex [where S = "(\<lambda>p q. q \<le> p)" and f = price, OF l] by blast
  ultimately show "sorted (rev (map price xs)) \<and> ties_in_order xs" ..
next
  assume r: "sorted (rev (map price xs)) \<and> ties_in_order xs"
  have eq: "(\<lambda>x y. price y < price x \<or> (price x = price y \<and> admitted_before x y)) =
        (\<lambda>x y. price y \<le> price x \<and> (price x = price y \<longrightarrow> admitted_before x y))"
    by (auto simp: fun_eq_iff)
  from r have "sorted_wrt (\<lambda>x y. price y \<le> price x) xs"
    by (simp add: sorted_rev_map)
  moreover from r have "\<And>k. sorted_wrt admitted_before (filter (\<lambda>y. price y = k) xs)"
    by (simp add: ties_in_order_def)
  ultimately have "sorted_wrt (\<lambda>x y. price y \<le> price x \<and> (price x = price y \<longrightarrow> admitted_before x y)) xs"
    by (rule lex_from_groups [where S = "(\<lambda>p q. q \<le> p)" and f = price])
  then show "descending_by_price xs" by (simp add: descending_by_price_def eq)
qed

lemma ties_in_order_sorted_ascending:
  "ties_in_order (sorted_ascending xs) = ties_in_order xs"
  by (simp add: ties_in_order_def sorted_ascending_def sort_key_stable)

lemma ties_in_order_sorted_descending:
  "ties_in_order (sorted_descending xs) = ties_in_order xs"
proof -
  have "filter (\<lambda>y. price y = k) (sorted_descending xs) = filter (\<lambda>y. price y = k) xs" for k
    by (simp add: sorted_descending_def rev_filter [symmetric] sort_key_stable)
  then show ?thesis by (simp add: ties_in_order_def)
qed

lemma ascending_sorted_ascending:
  "ties_in_order xs \<Longrightarrow> ascending_by_price (sorted_ascending xs)"
  by (simp add: ascending_by_price_iff ties_in_order_sorted_ascending)
     (simp add: sorted_ascending_def)

lemma descending_sorted_descending:
  "ties_in_order xs \<Longrightarrow> descending_by_price (sorted_descending xs)"
  by (simp add: descending_by_price_iff ties_in_order_sorted_descending)
     (simp add: sorted_descending_def rev_map)

lemma ties_in_order_filter:
  "ties_in_order xs \<Longrightarrow> ties_in_order (filter P xs)"
proof -
  assume t: "ties_in_order xs"
  have "sorted_wrt admitted_before (filter (\<lambda>y. price y = k) (filter P xs))" for k
  proof -
    have "filter (\<lambda>y. price y = k) (filter P xs) = filter P (filter (\<lambda>y. price y = k) xs)"
      by (simp add: conj_commute)
    moreover from t have "sorted_wrt admitted_before (filter P (filter (\<lambda>y. price y = k) xs))"
      unfolding ties_in_order_def by (blast intro: sorted_wrt_filter)
    ultimately show ?thesis by (simp only:)
  qed
  then show ?thesis by (simp add: ties_in_order_def)
qed

lemma ties_in_order_snoc:
  "ties_in_order xs \<Longrightarrow> \<forall>x \<in> set xs. admitted_before x y \<Longrightarrow> ties_in_order (xs @ [y])"
  by (auto simp: ties_in_order_def sorted_wrt_append)

lemma mset_sorted_descending: "mset (sorted_descending xs) = mset xs"
  by (simp add: sorted_descending_def)

lemma mset_sorted_ascending: "mset (sorted_ascending xs) = mset xs"
  by (simp add: sorted_ascending_def)

lemma set_sorted_descending: "set (sorted_descending xs) = set xs"
  by (simp add: sorted_descending_def)

lemma set_sorted_ascending: "set (sorted_ascending xs) = set xs"
  by (simp add: sorted_ascending_def)

lemma sorted_rev_map_filter:
  "sorted (rev (map f xs)) \<Longrightarrow> sorted (rev (map f (filter P xs)))"
  by (simp add: sorted_rev_map sorted_wrt_filter)

lemma sorted_hd_least: "sorted (map f xs) \<Longrightarrow> x \<in> set xs \<Longrightarrow> f (hd xs) \<le> f x"
  by (cases xs) auto

lemma sorted_rev_hd_greatest: "sorted (rev (map f xs)) \<Longrightarrow> x \<in> set xs \<Longrightarrow> f x \<le> f (hd xs)"
  unfolding sorted_rev_map by (cases xs) auto

subsection \<open>The invariant under the steps of an admission\<close>

lemma id_below_mono: "id_below n x \<Longrightarrow> n \<le> m \<Longrightarrow> id_below m x"
  by (auto simp: id_below_def split: option.splits)

lemma distinct_map_agent_append:
  "distinct (map agent (bs @ ss)) \<longleftrightarrow>
     distinct (map agent bs) \<and> distinct (map agent ss) \<and> agent ` set bs \<inter> agent ` set ss = {}"
  by simp

lemma weak_inv_filter:
  assumes "weak_inv n bs ss"
  shows "weak_inv n (filter P bs) (filter Q ss)"
proof -
  from assms have "distinct (map agent bs)" "distinct (map agent ss)"
    "agent ` set bs \<inter> agent ` set ss = {}"
    by (simp_all add: weak_inv_def)
  then have "distinct (map agent (filter P bs @ filter Q ss))"
    by (auto simp: distinct_map_filter)
  with assms show ?thesis
    by (auto simp: weak_inv_def ties_in_order_filter)
qed

lemma weak_inv_mono: "weak_inv n bs ss \<Longrightarrow> n \<le> m \<Longrightarrow> weak_inv m bs ss"
  unfolding weak_inv_def by (blast intro: id_below_mono)

lemma remove1_as_filter: "distinct (map f xs) \<Longrightarrow> remove1 x xs = filter (\<lambda>y. y \<noteq> x) xs"
proof -
  assume "distinct (map f xs)"
  then have "distinct xs" by (simp add: distinct_map)
  then have "remove1 x xs = removeAll x xs" by (rule distinct_remove1_removeAll)
  also have "\<dots> = filter (\<lambda>y. y \<noteq> x) xs" by (induction xs) auto
  finally show ?thesis .
qed

lemma weak_inv_remove1_buy: "weak_inv n bs ss \<Longrightarrow> weak_inv n (remove1 x bs) ss"
proof -
  assume w: "weak_inv n bs ss"
  then have "distinct (map agent bs)" by (simp add: weak_inv_def)
  then have "remove1 x bs = filter (\<lambda>y. y \<noteq> x) bs" by (rule remove1_as_filter)
  moreover have "ss = filter (\<lambda>y. True) ss" by simp
  ultimately show ?thesis using weak_inv_filter [OF w, of "\<lambda>y. y \<noteq> x" "\<lambda>y. True"] by simp
qed

lemma weak_inv_remove1_sell: "weak_inv n bs ss \<Longrightarrow> weak_inv n bs (remove1 x ss)"
proof -
  assume w: "weak_inv n bs ss"
  then have "distinct (map agent ss)" by (simp add: weak_inv_def)
  then have "remove1 x ss = filter (\<lambda>y. y \<noteq> x) ss" by (rule remove1_as_filter)
  then show ?thesis using weak_inv_filter [OF w, of "\<lambda>y. True" "\<lambda>y. y \<noteq> x"] by simp
qed

lemma admitted_before_new:
  "id_below n x \<Longrightarrow> order_id y = Some n \<Longrightarrow> admitted_before x y"
  by (auto simp: admitted_before_def id_below_def split: option.splits)

lemma weak_inv_snoc_buy:
  assumes "weak_inv n bs ss" and "agent y \<notin> agent ` set (bs @ ss)" and "order_id y = Some n"
  shows "weak_inv (Suc n) (bs @ [y]) ss"
proof -
  from assms(1,3) have "\<forall>x \<in> set bs. admitted_before x y"
    unfolding weak_inv_def by (blast intro: admitted_before_new)
  with assms(1) have t: "ties_in_order (bs @ [y])"
    by (simp add: weak_inv_def ties_in_order_snoc)
  from assms(1,2) have d: "distinct (map agent ((bs @ [y]) @ ss))"
    by (auto simp: weak_inv_def)
  from assms(3) have y: "id_below (Suc n) y" by (simp add: id_below_def)
  from assms(1) have "weak_inv (Suc n) bs ss" by (rule weak_inv_mono) simp
  with t d y show ?thesis by (simp add: weak_inv_def)
qed

lemma weak_inv_snoc_sell:
  assumes "weak_inv n bs ss" and "agent y \<notin> agent ` set (bs @ ss)" and "order_id y = Some n"
  shows "weak_inv (Suc n) bs (ss @ [y])"
proof -
  from assms(1,3) have "\<forall>x \<in> set ss. admitted_before x y"
    unfolding weak_inv_def by (blast intro: admitted_before_new)
  with assms(1) have t: "ties_in_order (ss @ [y])"
    by (simp add: weak_inv_def ties_in_order_snoc)
  from assms(1,2) have d: "distinct (map agent (bs @ (ss @ [y])))"
    by (auto simp: weak_inv_def)
  from assms(3) have y: "id_below (Suc n) y" by (simp add: id_below_def)
  from assms(1) have "weak_inv (Suc n) bs ss" by (rule weak_inv_mono) simp
  with t d y show ?thesis by (simp add: weak_inv_def)
qed

lemma weak_inv_sorted:
  assumes "weak_inv n bs ss"
  shows "weak_inv n (sorted_descending bs) (sorted_ascending ss)"
proof -
  have "mset (map agent (sorted_descending bs @ sorted_ascending ss)) = mset (map agent (bs @ ss))"
    by (simp add: mset_sorted_descending mset_sorted_ascending)
  then have "distinct (map agent (sorted_descending bs @ sorted_ascending ss)) =
             distinct (map agent (bs @ ss))"
    by (rule mset_eq_imp_distinct_iff)
  with assms show ?thesis
    by (simp add: weak_inv_def ties_in_order_sorted_ascending ties_in_order_sorted_descending
        set_sorted_descending set_sorted_ascending)
qed

lemma book_inv_sorted:
  assumes "weak_inv n bs ss"
    and "buy_orders b = sorted_descending bs" and "sell_orders b = sorted_ascending ss"
    and "order_count b = n"
  shows "book_inv b"
  using weak_inv_sorted [OF assms(1)] assms(2-4)
  by (simp add: book_inv_def) (simp add: sorted_descending_def sorted_ascending_def rev_map)

lemma at_most_one_with_key:
  "distinct (map f xs) \<Longrightarrow> length (filter (\<lambda>x. f x = a) xs) \<le> 1"
proof (induction xs)
  case Nil
  then show ?case by simp
next
  case (Cons x xs)
  show ?case
  proof (cases "f x = a")
    case True
    with Cons.prems have "\<forall>y \<in> set xs. f y \<noteq> a" by (auto simp: image_iff)
    then have "filter (\<lambda>x. f x = a) xs = []" by (simp add: filter_empty_conv)
    with True show ?thesis by simp
  next
    case False
    with Cons show ?thesis by simp
  qed
qed

lemma no_agent_after_sort:
  "resting_orders_of b' a = [] \<longleftrightarrow>
     (\<forall>x \<in> set (buy_orders b') \<union> set (sell_orders b'). agent x \<noteq> a)"
  by (auto simp: resting_orders_of_def filter_empty_conv)

subsection \<open>What add and execute compute\<close>

lemma refresh_best_buy_orders: "buy_orders (refresh_best b) = sorted_descending (buy_orders b)"
  by (simp add: refresh_best_def Let_def sorted_descending_def)

lemma refresh_best_sell_orders: "sell_orders (refresh_best b) = sorted_ascending (sell_orders b)"
  by (simp add: refresh_best_def Let_def sorted_ascending_def)

lemma refresh_best_fields:
  "order_count (refresh_best b) = order_count b"
  "num_transactions (refresh_best b) = num_transactions b"
  "history (refresh_best b) = history b"
  "event_history (refresh_best b) = event_history b"
  "best_bid_history (refresh_best b) = best_bid_history b"
  "best_ask_history (refresh_best b) = best_ask_history b"
  "product_name (refresh_best b) = product_name b"
  by (simp_all add: refresh_best_def Let_def)

lemma is_order_legitimate_cong:
  "is_order_legitimate A L (b\<lparr>order_count := n\<rparr>) (ord\<lparr>order_id := i\<rparr>) q =
   is_order_legitimate A L b ord q"
  by (simp add: is_order_legitimate_def)

lemma OrderBook_add_eq:
  "OrderBook_add A L b ord0 =
     (let ord = ord0\<lparr>order_id := Some (order_count b)\<rparr>;
          b2 = should_remove_existing_order (b\<lparr>order_count := order_count b + 1\<rparr>) ord0
      in if \<not> is_order_legitimate A L b ord0 (0 \<le> quantity ord0) then Inr (L, b2)
         else if \<not> crosses b2 ord0
           then Inr (L, refresh_best (rest_order b2 ord (0 \<le> quantity ord0)))
         else (case execute A L b2 ord (matched_order b2 ord0) of
                 Inl e \<Rightarrow> Inl e
               | Inr (r, L', b3) \<Rightarrow> Inr (L', refresh_best b3)))"
  by (auto simp: OrderBook_add_def Let_def can_order_be_executed_def crosses_def
      matched_order_def is_order_legitimate_cong should_remove_existing_order_id execute_def
      split: sum.splits)

lemma execute_lists:
  assumes "execute A L b inc bk = Inr (r, L', b3)"
  shows "order_count b3 = order_count b"
    and "0 \<le> quantity inc \<Longrightarrow>
         bk \<in> set (sell_orders b) \<and> buy_orders b3 = buy_orders b \<and>
         sell_orders b3 = remove1 bk (sell_orders b)"
    and "quantity inc < 0 \<Longrightarrow>
         bk \<in> set (buy_orders b) \<and> sell_orders b3 = sell_orders b \<and>
         buy_orders b3 = remove1 bk (buy_orders b)"
  using assms
  by (auto simp: execute_def record_trade_def Let_def split: if_splits)

lemma execute_Inr:
  assumes "execute A L b inc bk = Inr (r, L', b3)"
  shows "r"
    and "L' = (if 0 \<le> quantity inc
               then trade A L (agent inc) (''capital'', price bk)
                      (product_name b, Fin (min \<bar>quantity inc\<bar> \<bar>quantity bk\<bar>)) (agent bk)
               else trade A L (agent inc)
                      (product_name b, Fin (min \<bar>quantity inc\<bar> \<bar>quantity bk\<bar>))
                      (''capital'', price bk) (agent bk))"
    and "rows (history b3) = rows (history b) @
           [\<lparr>transaction_id = num_transactions b, row_price = price bk,
             row_quantity = min \<bar>quantity inc\<bar> \<bar>quantity bk\<bar>,
             buyer = agent_name A (if 0 \<le> quantity inc then agent inc else agent bk),
             seller = agent_name A (if 0 \<le> quantity inc then agent bk else agent inc)\<rparr>]"
    and "event_history b3 = event_history b @
           [\<lparr>seller_agent = (if 0 \<le> quantity inc then agent bk else agent inc),
             buyer_agent = (if 0 \<le> quantity inc then agent inc else agent bk),
             event_good = product_name b,
             event_quantity = min \<bar>quantity inc\<bar> \<bar>quantity bk\<bar>,
             event_price = price bk, event_step = 0\<rparr>]"
    and "num_transactions b3 = num_transactions b + 1"
  using assms
  by (auto simp: execute_def record_trade_def pd_concat_def Let_def split: if_splits)

lemma add_executed:
  assumes add: "OrderBook_add A L b ord = Inr (L', b')"
    and legit: "is_order_legitimate A L b ord (0 \<le> quantity ord)"
    and cross: "crosses (should_remove_existing_order b ord) ord"
  shows "\<exists>r b3. execute A L (should_remove_existing_order (b\<lparr>order_count := order_count b + 1\<rparr>) ord)
            (ord\<lparr>order_id := Some (order_count b)\<rparr>) (matched_order b ord) = Inr (r, L', b3) \<and>
          b' = refresh_best b3"
  using assms
  by (auto simp: OrderBook_add_eq Let_def purged_count_irrelevant split: sum.splits)

lemma add_executed_lists:
  assumes add: "OrderBook_add A L b ord = Inr (L', b')"
    and legit: "is_order_legitimate A L b ord (0 \<le> quantity ord)"
    and cross: "crosses (should_remove_existing_order b ord) ord"
  shows "if 0 \<le> quantity ord
         then matched_order b ord \<in> set (sell_orders (should_remove_existing_order b ord)) \<and>
              buy_orders b' = sorted_descending (buy_orders (should_remove_existing_order b ord)) \<and>
              sell_orders b' = sorted_ascending
                (remove1 (matched_order b ord) (sell_orders (should_remove_existing_order b ord)))
         else matched_order b ord \<in> set (buy_orders (should_remove_existing_order b ord)) \<and>
              sell_orders b' = sorted_ascending (sell_orders (should_remove_existing_order b ord)) \<and>
              buy_orders b' = sorted_descending
                (remove1 (matched_order b ord) (buy_orders (should_remove_existing_order b ord)))"
proof -
  from add_executed [OF assms] obtain r b3 where
    ex: "execute A L (should_remove_existing_order (b\<lparr>order_count := order_count b + 1\<rparr>) ord)
            (ord\<lparr>order_id := Some (order_count b)\<rparr>) (matched_order b ord) = Inr (r, L', b3)"
    and b': "b' = refresh_best b3" by blast
  show ?thesis
  proof (cases "0 \<le> quantity ord")
    case True
    with execute_lists(2) [OF ex] show ?thesis
      by (simp add: b' refresh_best_buy_orders refresh_best_sell_orders purged_count_irrelevant)
  next
    case False
    with execute_lists(3) [OF ex] show ?thesis
      by (simp add: b' refresh_best_buy_orders refresh_best_sell_orders purged_count_irrelevant)
  qed
qed

lemma add_executed_records:
  assumes add: "OrderBook_add A L b ord = Inr (L', b')"
    and legit: "is_order_legitimate A L b ord (0 \<le> quantity ord)"
    and cross: "crosses (should_remove_existing_order b ord) ord"
  shows "num_transactions b' = num_transactions b + 1"
    and "map row_quantity (rows (history b')) = map row_quantity (rows (history b)) @
           [min \<bar>quantity ord\<bar> \<bar>quantity (matched_order b ord)\<bar>]"
    and "length (event_history b') = length (event_history b) + 1"
proof -
  from add_executed [OF assms] obtain r b3 where
    ex: "execute A L (should_remove_existing_order (b\<lparr>order_count := order_count b + 1\<rparr>) ord)
            (ord\<lparr>order_id := Some (order_count b)\<rparr>) (matched_order b ord) = Inr (r, L', b3)"
    and b': "b' = refresh_best b3" by blast
  show "num_transactions b' = num_transactions b + 1"
    using execute_Inr(5) [OF ex] by (simp add: b' refresh_best_fields purged_fields)
  show "map row_quantity (rows (history b')) = map row_quantity (rows (history b)) @
           [min \<bar>quantity ord\<bar> \<bar>quantity (matched_order b ord)\<bar>]"
    using execute_Inr(3) [OF ex] by (simp add: b' refresh_best_fields purged_fields)
  show "length (event_history b') = length (event_history b) + 1"
    using execute_Inr(4) [OF ex] by (simp add: b' refresh_best_fields purged_fields)
qed

lemma add_raises_iff:
  "OrderBook_add A L b ord = Inl e \<longleftrightarrow>
     is_order_legitimate A L b ord (0 \<le> quantity ord) \<and>
     crosses (should_remove_existing_order b ord) ord \<and>
     matched_order b ord \<notin> set (if 0 \<le> quantity ord
                                   then sell_orders (should_remove_existing_order b ord)
                                   else buy_orders (should_remove_existing_order b ord))"
  by (cases e)
     (auto simp: OrderBook_add_eq Let_def purged_count_irrelevant execute_def
       split: sum.splits if_splits)

text \<open>
  On the ledger of the specification, when the two agents differ and the good is not
  the capital: the buyer named in the event pays the unit price of the book order and
  receives the matched quantity of the good, and the seller the reverse, whichever
  of the two submitted the incoming order.
\<close>

lemma ledger_trade_legs:
  assumes "a \<noteq> c" and "g_out \<noteq> g_in"
  shows "ledger_trade L a (g_out, Fin n_out) (g_in, Fin n_in) c a g_out = L a g_out - n_out"
    and "ledger_trade L a (g_out, Fin n_out) (g_in, Fin n_in) c a g_in = L a g_in + n_in"
    and "ledger_trade L a (g_out, Fin n_out) (g_in, Fin n_in) c c g_out = L c g_out + n_out"
    and "ledger_trade L a (g_out, Fin n_out) (g_in, Fin n_in) c c g_in = L c g_in - n_in"
  using assms by (simp_all add: ledger_trade_def add_amount_def)

lemma ledger_settlement:
  assumes "execute ledger_api L b incoming_order book_order = Inr (r, L', b')"
    and "price book_order = Fin p"
    and "agent incoming_order \<noteq> agent book_order"
    and "product_name b \<noteq> ''capital''"
  shows "L' (buyer_agent (last (event_history b'))) ''capital'' =
           L (buyer_agent (last (event_history b'))) ''capital'' - p"
    and "L' (buyer_agent (last (event_history b'))) (product_name b) =
           L (buyer_agent (last (event_history b'))) (product_name b) +
           min \<bar>quantity incoming_order\<bar> \<bar>quantity book_order\<bar>"
    and "L' (seller_agent (last (event_history b'))) ''capital'' =
           L (seller_agent (last (event_history b'))) ''capital'' + p"
    and "L' (seller_agent (last (event_history b'))) (product_name b) =
           L (seller_agent (last (event_history b'))) (product_name b) -
           min \<bar>quantity incoming_order\<bar> \<bar>quantity book_order\<bar>"
proof -
  have t: "trade ledger_api = ledger_trade" by (simp add: ledger_api_def)
  note e = execute_Inr(2,4) [OF assms(1), unfolded t assms(2)]
  show "L' (buyer_agent (last (event_history b'))) ''capital'' =
           L (buyer_agent (last (event_history b'))) ''capital'' - p"
    using e assms(3,4) by (simp add: ledger_trade_legs)
  show "L' (buyer_agent (last (event_history b'))) (product_name b) =
           L (buyer_agent (last (event_history b'))) (product_name b) +
           min \<bar>quantity incoming_order\<bar> \<bar>quantity book_order\<bar>"
    using e assms(3,4) by (simp add: ledger_trade_legs)
  show "L' (seller_agent (last (event_history b'))) ''capital'' =
           L (seller_agent (last (event_history b'))) ''capital'' + p"
    using e assms(3,4) by (simp add: ledger_trade_legs)
  show "L' (seller_agent (last (event_history b'))) (product_name b) =
           L (seller_agent (last (event_history b'))) (product_name b) -
           min \<bar>quantity incoming_order\<bar> \<bar>quantity book_order\<bar>"
    using e assms(3,4) by (simp add: ledger_trade_legs)
qed

subsection \<open>Every reachable book satisfies the invariants\<close>

lemma book_inv_purged:
  assumes "book_inv b"
  shows "book_inv (should_remove_existing_order (b\<lparr>order_count := order_count b + 1\<rparr>) ord)"
proof -
  let ?keep = "\<lambda>x. agent x \<noteq> agent ord"
  from assms have w: "weak_inv (order_count b) (buy_orders b) (sell_orders b)"
    by (simp add: book_inv_def)
  then have d: "distinct (map agent (buy_orders b @ sell_orders b))"
    by (simp add: weak_inv_def)
  from w have "weak_inv (order_count b) (filter ?keep (buy_orders b)) (filter ?keep (sell_orders b))"
    by (rule weak_inv_filter)
  then have "weak_inv (order_count b + 1) (filter ?keep (buy_orders b)) (filter ?keep (sell_orders b))"
    by (rule weak_inv_mono) simp
  with assms d show ?thesis
    by (simp add: should_remove_existing_order_filter book_inv_def sorted_rev_map_filter
        sorted_filter)
qed

lemma book_inv_add:
  assumes inv: "book_inv b" and add: "OrderBook_add A L b ord0 = Inr (L', b')"
  shows "book_inv b'"
proof -
  define ord where "ord = ord0\<lparr>order_id := Some (order_count b)\<rparr>"
  define b2 where "b2 = should_remove_existing_order (b\<lparr>order_count := order_count b + 1\<rparr>) ord0"
  have inv2: "book_inv b2" unfolding b2_def using inv by (rule book_inv_purged)
  have cnt2: "order_count b2 = Suc (order_count b)"
    by (simp add: b2_def purged_order_count)
  from inv have "distinct (map agent (buy_orders b @ sell_orders b))"
    by (simp add: book_inv_def weak_inv_def)
  then have fresh: "agent ord \<notin> agent ` set (buy_orders b2 @ sell_orders b2)"
    using purged_no_agent [of "b\<lparr>order_count := order_count b + 1\<rparr>" ord0]
    by (simp add: b2_def ord_def)
  from inv2 have w2: "weak_inv (order_count b2) (buy_orders b2) (sell_orders b2)"
    by (simp add: book_inv_def)
  have w2': "weak_inv (Suc (order_count b2)) (buy_orders b2) (sell_orders b2)"
    using w2 by (rule weak_inv_mono) simp
  have w0: "weak_inv (order_count b) (buy_orders b2) (sell_orders b2)"
  proof -
    from inv have "weak_inv (order_count b) (buy_orders b) (sell_orders b)"
      by (simp add: book_inv_def)
    then have "weak_inv (order_count b) (filter (\<lambda>x. agent x \<noteq> agent ord0) (buy_orders b))
        (filter (\<lambda>x. agent x \<noteq> agent ord0) (sell_orders b))"
      by (rule weak_inv_filter)
    with \<open>distinct (map agent (buy_orders b @ sell_orders b))\<close> show ?thesis
      by (simp add: b2_def should_remove_existing_order_filter)
  qed
  consider (illegitimate) "\<not> is_order_legitimate A L b ord0 (0 \<le> quantity ord0)"
    | (rests) "is_order_legitimate A L b ord0 (0 \<le> quantity ord0)" "\<not> crosses b2 ord0"
    | (executes) "is_order_legitimate A L b ord0 (0 \<le> quantity ord0)" "crosses b2 ord0"
    by blast
  then show ?thesis
  proof cases
    case illegitimate
    with add have "b' = b2"
      by (simp add: OrderBook_add_eq Let_def b2_def)
    with inv2 show ?thesis by simp
  next
    case rests
    with add have b': "b' = refresh_best (rest_order b2 ord (0 \<le> quantity ord0))"
      by (simp add: OrderBook_add_eq Let_def b2_def ord_def)
    show ?thesis
    proof (cases "0 \<le> quantity ord0")
      case True
      have "weak_inv (Suc (order_count b)) (buy_orders b2 @ [ord]) (sell_orders b2)"
        using w0 fresh by (rule weak_inv_snoc_buy) (simp add: ord_def)
      then show ?thesis
        by (rule book_inv_sorted)
           (simp_all add: b' True rest_order_def refresh_best_buy_orders
             refresh_best_sell_orders refresh_best_fields cnt2)
    next
      case False
      have "weak_inv (Suc (order_count b)) (buy_orders b2) (sell_orders b2 @ [ord])"
        using w0 fresh by (rule weak_inv_snoc_sell) (simp add: ord_def)
      then show ?thesis
        by (rule book_inv_sorted)
           (simp_all add: b' False rest_order_def refresh_best_buy_orders
             refresh_best_sell_orders refresh_best_fields cnt2)
    qed
  next
    case executes
    with add obtain r b3 where
      ex: "execute A L b2 ord (matched_order b2 ord0) = Inr (r, L', b3)"
      and b': "b' = refresh_best b3"
      by (auto simp: OrderBook_add_eq Let_def b2_def ord_def split: sum.splits)
    have q: "quantity ord = quantity ord0" by (simp add: ord_def)
    show ?thesis
    proof (cases "0 \<le> quantity ord0")
      case True
      with execute_lists(1,2) [OF ex] q
      have l: "order_count b3 = order_count b2" "buy_orders b3 = buy_orders b2"
        "sell_orders b3 = remove1 (matched_order b2 ord0) (sell_orders b2)"
        by simp_all
      have "weak_inv (order_count b2) (buy_orders b2)
              (remove1 (matched_order b2 ord0) (sell_orders b2))"
        using w2 by (rule weak_inv_remove1_sell)
      then show ?thesis
        by (rule book_inv_sorted)
           (simp_all add: b' l refresh_best_buy_orders refresh_best_sell_orders
             refresh_best_fields)
    next
      case False
      with execute_lists(1,3) [OF ex] q
      have l: "order_count b3 = order_count b2" "sell_orders b3 = sell_orders b2"
        "buy_orders b3 = remove1 (matched_order b2 ord0) (buy_orders b2)"
        by simp_all
      have "weak_inv (order_count b2) (remove1 (matched_order b2 ord0) (buy_orders b2))
              (sell_orders b2)"
        using w2 by (rule weak_inv_remove1_buy)
      then show ?thesis
        by (rule book_inv_sorted)
           (simp_all add: b' l refresh_best_buy_orders refresh_best_sell_orders
             refresh_best_fields)
    qed
  qed
qed

lemma book_inv_init: "book_inv (OrderBook_init name)"
  by (simp add: book_inv_def weak_inv_def ties_in_order_def OrderBook_init_def)

lemma book_inv_reset: "book_inv (OrderBook_reset b)"
  by (simp add: book_inv_def weak_inv_def ties_in_order_def OrderBook_reset_def)

lemma book_inv_step: "book_inv b \<Longrightarrow> book_inv (OrderBook_step b)"
  by (simp add: book_inv_def OrderBook_step_def Let_def)

lemma reachable_book_inv: "reachable A b \<Longrightarrow> book_inv b"
  by (induction rule: reachable.induct)
     (auto intro: book_inv_init book_inv_add book_inv_step book_inv_reset)

lemma purged_lists:
  assumes "book_inv b"
  shows "buy_orders (should_remove_existing_order b ord) =
           filter (\<lambda>x. agent x \<noteq> agent ord) (buy_orders b)"
    and "sell_orders (should_remove_existing_order b ord) =
           filter (\<lambda>x. agent x \<noteq> agent ord) (sell_orders b)"
  using assms by (simp_all add: book_inv_def weak_inv_def should_remove_existing_order_filter)

lemma hd_filter_keeps: "x \<in> set (filter P xs) \<Longrightarrow> x = hd xs \<Longrightarrow> hd (filter P xs) = x"
  by (cases xs) auto

lemma best_inv_purged:
  assumes "book_inv b" and "best_inv b"
  shows "best_inv (should_remove_existing_order b ord)"
proof -
  from assms(1) have "distinct (map agent (buy_orders b @ sell_orders b))"
    by (simp add: book_inv_def weak_inv_def)
  then have eq: "should_remove_existing_order b ord =
         b\<lparr>sell_orders := filter (\<lambda>x. agent x \<noteq> agent ord) (sell_orders b),
           buy_orders := filter (\<lambda>x. agent x \<noteq> agent ord) (buy_orders b)\<rparr>"
    by (rule should_remove_existing_order_filter)
  from assms(2) show ?thesis
    unfolding eq best_inv_def
    by (auto intro!: hd_filter_keeps [symmetric])
qed

lemma best_inv_refresh: "best_inv (refresh_best b)"
proof -
  have asc: "sorted (map price (sorted_ascending xs))" for xs
    by (simp add: sorted_ascending_def)
  have desc: "sorted (rev (map price (sorted_descending xs)))" for xs
    by (simp add: sorted_descending_def rev_map)
  have ne_a: "sorted_ascending xs \<noteq> []" if "xs \<noteq> []" for xs
    using that set_sorted_ascending [of xs] by (metis set_empty)
  have ne_d: "sorted_descending xs \<noteq> []" if "xs \<noteq> []" for xs
    using that set_sorted_descending [of xs] by (metis set_empty)
  show ?thesis
    by (auto simp: best_inv_def refresh_best_def Let_def hd_conv_nth ne_a ne_d
        simp flip: hd_conv_nth
        intro: sorted_hd_least [OF asc] sorted_rev_hd_greatest [OF desc])
qed

lemma best_inv_add:
  assumes "book_inv b" and "best_inv b" and "OrderBook_add A L b ord = Inr (L', b')"
  shows "best_inv b'"
proof (cases "is_order_legitimate A L b ord (0 \<le> quantity ord)")
  case False
  have "best_inv (b\<lparr>order_count := order_count b + 1\<rparr>)"
    using assms(2) by (simp add: best_inv_def)
  moreover have "book_inv (b\<lparr>order_count := order_count b + 1\<rparr>)"
    using assms(1) weak_inv_mono [of "order_count b" "buy_orders b" "sell_orders b" "order_count b + 1"]
    by (simp add: book_inv_def)
  ultimately have "best_inv (should_remove_existing_order (b\<lparr>order_count := order_count b + 1\<rparr>) ord)"
    by (rule best_inv_purged [rotated])
  with False assms(3) show ?thesis by (simp add: OrderBook_add_eq Let_def)
next
  case True
  with assms(3) obtain c where "b' = refresh_best c"
    by (auto simp: OrderBook_add_eq Let_def split: if_splits sum.splits)
  then show ?thesis by (simp add: best_inv_refresh)
qed

lemma reachable_best_inv: "reachable A b \<Longrightarrow> best_inv b"
proof (induction rule: reachable.induct)
  case (init name)
  show ?case by (simp add: best_inv_def OrderBook_init_def)
next
  case (add b L ord L' b')
  from add.hyps(1) have "book_inv b" by (rule reachable_book_inv)
  then show ?case using add.IH add.hyps(2) by (rule best_inv_add)
next
  case (step b)
  then show ?case by (simp add: best_inv_def OrderBook_step_def Let_def)
next
  case (reset b)
  show ?case by (simp add: best_inv_def OrderBook_reset_def)
qed

lemma returning_add_follows_best:
  assumes "reachable A b"
    and "OrderBook_add A L b ord = Inr (L', b')"
    and "is_order_legitimate A L b ord (0 \<le> quantity ord)"
  shows "crosses (should_remove_existing_order b ord) ord \<longleftrightarrow>
           (if 0 \<le> quantity ord
            then sell_orders (should_remove_existing_order b ord) \<noteq> [] \<and>
                 price (hd (sell_orders (should_remove_existing_order b ord))) \<le> price ord
            else buy_orders (should_remove_existing_order b ord) \<noteq> [] \<and>
                 price ord \<le> price (hd (buy_orders (should_remove_existing_order b ord))))"
    and "crosses (should_remove_existing_order b ord) ord \<Longrightarrow>
           matched_order b ord =
             hd (if 0 \<le> quantity ord then sell_orders (should_remove_existing_order b ord)
                 else buy_orders (should_remove_existing_order b ord))"
    and "\<not> crosses (should_remove_existing_order b ord) ord \<Longrightarrow>
           L' = L \<and>
           b' = refresh_best (rest_order
                  (should_remove_existing_order (b\<lparr>order_count := order_count b + 1\<rparr>) ord)
                  (ord\<lparr>order_id := Some (order_count b)\<rparr>) (0 \<le> quantity ord))"
proof -
  let ?b2 = "should_remove_existing_order b ord"
  from assms(1) have inv: "book_inv b" and "best_inv b"
    by (rule reachable_book_inv, rule reachable_best_inv)
  then have best: "best_inv ?b2" by (rule best_inv_purged)
  have hd_if: "matched_order b ord =
      hd (if 0 \<le> quantity ord then sell_orders ?b2 else buy_orders ?b2)" if "crosses ?b2 ord"
    using add_executed_lists [OF assms(2,3) that] best
    by (auto simp: best_inv_def matched_order_def purged_fields split: if_splits)
  show "crosses ?b2 ord \<Longrightarrow> matched_order b ord =
      hd (if 0 \<le> quantity ord then sell_orders ?b2 else buy_orders ?b2)"
    by (rule hd_if)
  show "crosses ?b2 ord \<longleftrightarrow>
           (if 0 \<le> quantity ord
            then sell_orders ?b2 \<noteq> [] \<and> price (hd (sell_orders ?b2)) \<le> price ord
            else buy_orders ?b2 \<noteq> [] \<and> price ord \<le> price (hd (buy_orders ?b2)))"
  proof
    assume c: "crosses ?b2 ord"
    with hd_if [OF c] show "if 0 \<le> quantity ord
            then sell_orders ?b2 \<noteq> [] \<and> price (hd (sell_orders ?b2)) \<le> price ord
            else buy_orders ?b2 \<noteq> [] \<and> price ord \<le> price (hd (buy_orders ?b2))"
      by (auto simp: crosses_def matched_order_def purged_fields split: if_splits)
  next
    assume t: "if 0 \<le> quantity ord
            then sell_orders ?b2 \<noteq> [] \<and> price (hd (sell_orders ?b2)) \<le> price ord
            else buy_orders ?b2 \<noteq> [] \<and> price ord \<le> price (hd (buy_orders ?b2))"
    show "crosses ?b2 ord"
    proof (cases "0 \<le> quantity ord")
      case True
      with t have ne: "sell_orders ?b2 \<noteq> []" and le: "price (hd (sell_orders ?b2)) \<le> price ord"
        by simp_all
      from ne have "hd (sell_orders ?b2) \<in> set (sell_orders ?b2)" by simp
      with best have "price (lowest_offer_order ?b2) \<le> price (hd (sell_orders ?b2))"
        by (simp add: best_inv_def)
      with le have "price (lowest_offer_order ?b2) \<le> price ord" by simp
      with True ne show ?thesis by (simp add: crosses_def)
    next
      case False
      with t have ne: "buy_orders ?b2 \<noteq> []" and le: "price ord \<le> price (hd (buy_orders ?b2))"
        by simp_all
      from ne have "hd (buy_orders ?b2) \<in> set (buy_orders ?b2)" by simp
      with best have "price (hd (buy_orders ?b2)) \<le> price (highest_bid_order ?b2)"
        by (simp add: best_inv_def)
      with le have "price ord \<le> price (highest_bid_order ?b2)" by simp
      with False ne show ?thesis by (simp add: crosses_def)
    qed
  qed
  show "\<not> crosses ?b2 ord \<Longrightarrow> L' = L \<and>
           b' = refresh_best (rest_order
                  (should_remove_existing_order (b\<lparr>order_count := order_count b + 1\<rparr>) ord)
                  (ord\<lparr>order_id := Some (order_count b)\<rparr>) (0 \<le> quantity ord))"
    using assms(2,3) by (auto simp: OrderBook_add_eq Let_def purged_count_irrelevant)
qed

lemma reachable_submit_all:
  "reachable A b \<Longrightarrow> submit_all A L b ords = Inr (L', b') \<Longrightarrow> reachable A b'"
proof (induction ords arbitrary: L b)
  case Nil
  then show ?case by simp
next
  case (Cons ord ords)
  from Cons.prems(2) obtain L1 b1 where
    first: "OrderBook_add A L b ord = Inr (L1, b1)" and rest: "submit_all A L1 b1 ords = Inr (L', b')"
    by (auto split: sum.splits)
  from Cons.prems(1) first have "reachable A b1" by (rule reachable.add)
  then show ?case using rest by (rule Cons.IH)
qed

lemma reachable_book_after: "reachable ledger_api (book_after ords)"
proof (cases "submit_all ledger_api rich (OrderBook_init ''G'') ords")
  case (Inl e)
  then show ?thesis by (simp add: book_after_def reachable.init)
next
  case (Inr r)
  then obtain L b where r: "submit_all ledger_api rich (OrderBook_init ''G'') ords = Inr (L, b)"
    by (cases r) simp
  have "reachable ledger_api (OrderBook_init ''G'')" by (rule reachable.init)
  then have "reachable ledger_api b" using r by (rule reachable_submit_all)
  with r show ?thesis by (simp add: book_after_def)
qed

lemma reset_clears:
  "sell_orders (OrderBook_reset b) = [] \<and> buy_orders (OrderBook_reset b) = [] \<and>
   get_full_orderbook (OrderBook_reset b) = [] \<and>
   price (highest_bid_order (OrderBook_reset b)) = NegInf \<and>
   price (lowest_offer_order (OrderBook_reset b)) = PosInf \<and>
   order_count (OrderBook_reset b) = 0 \<and> num_transactions (OrderBook_reset b) = 0 \<and>
   rows (history (OrderBook_reset b)) = [] \<and>
   best_bid_history (OrderBook_reset b) = best_bid_history b \<and>
   best_ask_history (OrderBook_reset b) = best_ask_history b \<and>
   event_history (OrderBook_reset b) = event_history b"
  by (simp add: OrderBook_reset_def get_full_orderbook_def Order_def)

lemmas eval_simps = OrderBook_add_def Let_def is_order_legitimate_def should_remove_existing_order_def
  remove_loop.simps can_order_be_executed_def execute_def record_trade_def rest_order_def
  refresh_best_def sorted_descending_def sorted_ascending_def ledger_api_def rich_def Order_def
  OrderBook_init_def pd_concat_def ledger_trade_def add_amount_def ledger_name_def
  book_after_def ledger_after_def

section \<open>The claims\<close>

subsection \<open>Matching against the cached best order\<close>

text \<open>
  C1. An admitted order is to trade with the best order of the opposite side when
  that side is not empty and the prices cross, and to rest otherwise.
  \<^verbatim>\<open>_can_order_be_executed\<close> compares with the cached best order, which \<^verbatim>\<open>add\<close>
  refreshes only after the match. At the input below the code does neither: agent 0
  rests a bid at 10, agent 1 a bid at 5, then agent 0 sells one unit at 8. Its bid is
  removed, the buy side is \<open>[(5, 1)]\<close>, and a sell at 8 does not cross a bid at 5. The
  cached bid is still the removed order at 10, so \<^verbatim>\<open>execute\<close> is called with it and
  \<^verbatim>\<open>list.remove\<close> raises \<^verbatim>\<open>ValueError\<close>, after the transfer was issued.
\<close>

theorem stale_best_bid_raises:
  "reachable ledger_api
     (book_after [Order ''G'' (Fin 10) 1 (Agent 0), Order ''G'' (Fin 5) 1 (Agent 1)])
   \<and> get_full_orderbook
       (book_after [Order ''G'' (Fin 10) 1 (Agent 0), Order ''G'' (Fin 5) 1 (Agent 1)])
     = [(Fin 10, 1), (Fin 5, 1)]
   \<and> is_order_legitimate ledger_api
       (ledger_after [Order ''G'' (Fin 10) 1 (Agent 0), Order ''G'' (Fin 5) 1 (Agent 1)])
       (book_after [Order ''G'' (Fin 10) 1 (Agent 0), Order ''G'' (Fin 5) 1 (Agent 1)])
       (Order ''G'' (Fin 8) (- 1) (Agent 0)) False
   \<and> get_full_orderbook (should_remove_existing_order
       (book_after [Order ''G'' (Fin 10) 1 (Agent 0), Order ''G'' (Fin 5) 1 (Agent 1)])
       (Order ''G'' (Fin 8) (- 1) (Agent 0)))
     = [(Fin 5, 1)]
   \<and> OrderBook_add ledger_api
       (ledger_after [Order ''G'' (Fin 10) 1 (Agent 0), Order ''G'' (Fin 5) 1 (Agent 1)])
       (book_after [Order ''G'' (Fin 10) 1 (Agent 0), Order ''G'' (Fin 5) 1 (Agent 1)])
       (Order ''G'' (Fin 8) (- 1) (Agent 0))
     = Inl ValueError"
  using reachable_book_after [of "[Order ''G'' (Fin 10) 1 (Agent 0), Order ''G'' (Fin 5) 1 (Agent 1)]"]
  by (simp add: eval_simps get_full_orderbook_def)

subsection \<open>The legitimacy check\<close>

text \<open>
  C2. \<^verbatim>\<open>add\<close> calls the check with \<open>is_buy_order = (quantity \<ge> 0)\<close>. The check
  accepts an order iff its quantity is not zero and, for a buy order (quantity above
  zero), the capital of the agent is at least the unit price of the order (the
  quantity plays no part), and, for a sell order (quantity below zero), the agent
  holds at least the magnitude of the quantity of the good of the book.
\<close>

theorem is_order_legitimate_iff:
  "is_order_legitimate A L b ord (0 \<le> quantity ord) \<longleftrightarrow>
     quantity ord \<noteq> 0 \<and>
     (0 < quantity ord \<longrightarrow> price ord \<le> Fin (get_amounts A L (agent ord) ''capital'')) \<and>
     (quantity ord < 0 \<longrightarrow> \<bar>quantity ord\<bar> \<le> get_amounts A L (agent ord) (product_name b))"
  by (auto simp: is_order_legitimate_def)

theorem is_order_legitimate_iff_witness:
  "is_order_legitimate ledger_api rich (OrderBook_init ''G'') (Order ''G'' (Fin 30) 7 (Agent 0)) True
   \<and> \<not> is_order_legitimate ledger_api rich (OrderBook_init ''G'')
         (Order ''G'' (Fin 101) 1 (Agent 0)) True
   \<and> \<not> is_order_legitimate ledger_api rich (OrderBook_init ''G'')
         (Order ''G'' (Fin 1) (- 101) (Agent 0)) False"
  using is_order_legitimate_iff [of ledger_api rich "OrderBook_init ''G''" "Order ''G'' (Fin 30) 7 (Agent 0)"]
    is_order_legitimate_iff [of ledger_api rich "OrderBook_init ''G''" "Order ''G'' (Fin 101) 1 (Agent 0)"]
    is_order_legitimate_iff [of ledger_api rich "OrderBook_init ''G''" "Order ''G'' (Fin 1) (- 101) (Agent 0)"]
  by (simp add: Order_def ledger_api_def rich_def OrderBook_init_def)

subsection \<open>One match per admission\<close>

text \<open>
  C3. When a legitimate order crosses, is larger than the resting order it is matched
  with, and \<^verbatim>\<open>add\<close> returns, then no order of the submitting agent rests afterwards
  (the excess is not inserted), the book holds exactly the orders it held after the
  removal of the agent's own orders except the matched one (no second resting order is
  touched), one trade is counted, one event is logged, and the one new row of the trade
  ledger has the magnitude of the resting order as its quantity.
\<close>

theorem excess_is_discarded:
  assumes "reachable A b"
    and "OrderBook_add A L b ord = Inr (L', b')"
    and "is_order_legitimate A L b ord (0 \<le> quantity ord)"
    and "crosses (should_remove_existing_order b ord) ord"
    and "\<bar>quantity (matched_order b ord)\<bar> < \<bar>quantity ord\<bar>"
  shows "resting_orders_of b' (agent ord) = [] \<and>
         mset (buy_orders b' @ sell_orders b') + {#matched_order b ord#} =
           mset (buy_orders (should_remove_existing_order b ord) @
                 sell_orders (should_remove_existing_order b ord)) \<and>
         num_transactions b' = num_transactions b + 1 \<and>
         length (event_history b') = length (event_history b) + 1 \<and>
         map row_quantity (rows (history b')) =
           map row_quantity (rows (history b)) @ [\<bar>quantity (matched_order b ord)\<bar>]"
proof -
  let ?m = "matched_order b ord"
  let ?b2 = "should_remove_existing_order b ord"
  from assms(1) have inv: "book_inv b" by (rule reachable_book_inv)
  have lists: "if 0 \<le> quantity ord
         then ?m \<in> set (sell_orders ?b2) \<and>
              buy_orders b' = sorted_descending (buy_orders ?b2) \<and>
              sell_orders b' = sorted_ascending (remove1 ?m (sell_orders ?b2))
         else ?m \<in> set (buy_orders ?b2) \<and>
              sell_orders b' = sorted_ascending (sell_orders ?b2) \<and>
              buy_orders b' = sorted_descending (remove1 ?m (buy_orders ?b2))"
    using assms(2-4) by (rule add_executed_lists)
  have sub: "set (buy_orders b') \<union> set (sell_orders b') \<subseteq>
             set (buy_orders ?b2) \<union> set (sell_orders ?b2)"
    using lists set_remove1_subset [of ?m "sell_orders ?b2"] set_remove1_subset [of ?m "buy_orders ?b2"]
    by (auto simp: set_sorted_descending set_sorted_ascending split: if_splits)
  have "\<forall>x \<in> set (buy_orders ?b2) \<union> set (sell_orders ?b2). agent x \<noteq> agent ord"
    by (auto simp: purged_lists [OF inv])
  with sub have gone: "resting_orders_of b' (agent ord) = []"
    unfolding no_agent_after_sort by blast
  have ms: "mset (buy_orders b' @ sell_orders b') + {#?m#} =
            mset (buy_orders ?b2 @ sell_orders ?b2)"
    using lists
    by (auto simp: mset_sorted_descending mset_sorted_ascending split: if_splits)
  from assms(5) have "min \<bar>quantity ord\<bar> \<bar>quantity ?m\<bar> = \<bar>quantity ?m\<bar>" by simp
  with gone ms add_executed_records [OF assms(2-4)] show ?thesis by simp
qed

theorem excess_is_discarded_witness:
  "OrderBook_add ledger_api (ledger_after [Order ''G'' (Fin 10) 4 (Agent 0)])
       (book_after [Order ''G'' (Fin 10) 4 (Agent 0)]) (Order ''G'' (Fin 8) (- 10) (Agent 1)) =
     Inr (ledger_after [Order ''G'' (Fin 10) 4 (Agent 0), Order ''G'' (Fin 8) (- 10) (Agent 1)],
          book_after [Order ''G'' (Fin 10) 4 (Agent 0), Order ''G'' (Fin 8) (- 10) (Agent 1)])
   \<and> get_full_orderbook (book_after [Order ''G'' (Fin 10) 4 (Agent 0)]) = [(Fin 10, 4)]
   \<and> get_full_orderbook
       (book_after [Order ''G'' (Fin 10) 4 (Agent 0), Order ''G'' (Fin 8) (- 10) (Agent 1)]) = []
   \<and> map row_quantity (rows (history
       (book_after [Order ''G'' (Fin 10) 4 (Agent 0), Order ''G'' (Fin 8) (- 10) (Agent 1)]))) = [4]
   \<and> num_transactions
       (book_after [Order ''G'' (Fin 10) 4 (Agent 0), Order ''G'' (Fin 8) (- 10) (Agent 1)]) = 1"
  using excess_is_discarded [where A = ledger_api
      and L = "ledger_after [Order ''G'' (Fin 10) 4 (Agent 0)]"
      and b = "book_after [Order ''G'' (Fin 10) 4 (Agent 0)]"
      and ord = "Order ''G'' (Fin 8) (- 10) (Agent 1)"
      and L' = "ledger_after [Order ''G'' (Fin 10) 4 (Agent 0), Order ''G'' (Fin 8) (- 10) (Agent 1)]"
      and b' = "book_after [Order ''G'' (Fin 10) 4 (Agent 0), Order ''G'' (Fin 8) (- 10) (Agent 1)]",
      OF reachable_book_after]
  by (simp add: eval_simps get_full_orderbook_def crosses_def matched_order_def)

subsection \<open>At most one resting order per agent\<close>

text \<open>
  C4. In every reachable state an agent has at most one resting order, both sides
  taken together; and the removal that opens every admission leaves no resting order
  of the submitting agent.
\<close>

theorem one_resting_order_per_agent:
  assumes "reachable A b"
  shows "length (resting_orders_of b a) \<le> 1 \<and>
         resting_orders_of (should_remove_existing_order b ord) (agent ord) = []"
proof -
  from assms have inv: "book_inv b" by (rule reachable_book_inv)
  then have "distinct (map agent (buy_orders b @ sell_orders b))"
    by (simp add: book_inv_def weak_inv_def)
  then have "length (filter (\<lambda>x. agent x = a) (buy_orders b @ sell_orders b)) \<le> 1"
    by (rule at_most_one_with_key)
  moreover have "resting_orders_of (should_remove_existing_order b ord) (agent ord) = []"
    by (simp add: resting_orders_of_def purged_lists [OF inv] filter_empty_conv)
  ultimately show ?thesis by (simp add: resting_orders_of_def)
qed

theorem one_resting_order_per_agent_witness:
  "reachable ledger_api (book_after [Order ''G'' (Fin 10) 5 (Agent 0), Order ''G'' (Fin 10) 2 (Agent 0)])
   \<and> resting_orders_of (book_after [Order ''G'' (Fin 10) 5 (Agent 0), Order ''G'' (Fin 10) 2 (Agent 0)]) (Agent 0)
      = [\<lparr>good = ''G'', price = Fin 10, quantity = 2, agent = Agent 0, order_id = Some 1\<rparr>]
   \<and> length (resting_orders_of (book_after [Order ''G'' (Fin 10) 5 (Agent 0), Order ''G'' (Fin 10) 2 (Agent 0)]) (Agent 0)) \<le> 1"
  using one_resting_order_per_agent [OF reachable_book_after,
      of "[Order ''G'' (Fin 10) 5 (Agent 0), Order ''G'' (Fin 10) 2 (Agent 0)]" "Agent 0"]
    reachable_book_after [of "[Order ''G'' (Fin 10) 5 (Agent 0), Order ''G'' (Fin 10) 2 (Agent 0)]"]
  by (simp add: eval_simps resting_orders_of_def)

subsection \<open>Settlement\<close>

text \<open>
  C5. A call of \<^verbatim>\<open>execute\<close> that returns has issued one transfer: the incoming
  agent calls \<^verbatim>\<open>trade\<close> with the agent of the book order, the capital leg being the
  unit price of the book order and the goods leg the minimum of the two magnitudes,
  the capital leg first (given) when the incoming order buys and second (received)
  when it sells. It has appended one row (transaction id, price, quantity, buyer,
  seller) to the trade ledger and one event to the event log, and the trade counter has
  grown by one. On the ledger of the specification the call makes the buyer pay the
  unit price and receive the matched quantity in both cases (\<open>ledger_settlement\<close>);
  in the witness the buyer pays 10 for three units.
\<close>

theorem execute_settlement:
  assumes "execute A L b incoming_order book_order = Inr (r, L', b')"
  shows "r \<and>
         L' = (if 0 \<le> quantity incoming_order
               then trade A L (agent incoming_order) (''capital'', price book_order)
                      (product_name b,
                       Fin (min \<bar>quantity incoming_order\<bar> \<bar>quantity book_order\<bar>))
                      (agent book_order)
               else trade A L (agent incoming_order)
                      (product_name b,
                       Fin (min \<bar>quantity incoming_order\<bar> \<bar>quantity book_order\<bar>))
                      (''capital'', price book_order) (agent book_order)) \<and>
         rows (history b') = rows (history b) @
           [\<lparr>transaction_id = num_transactions b, row_price = price book_order,
             row_quantity = min \<bar>quantity incoming_order\<bar> \<bar>quantity book_order\<bar>,
             buyer = agent_name A (if 0 \<le> quantity incoming_order then agent incoming_order
                                   else agent book_order),
             seller = agent_name A (if 0 \<le> quantity incoming_order then agent book_order
                                    else agent incoming_order)\<rparr>] \<and>
         event_history b' = event_history b @
           [\<lparr>seller_agent = (if 0 \<le> quantity incoming_order then agent book_order
                             else agent incoming_order),
             buyer_agent = (if 0 \<le> quantity incoming_order then agent incoming_order
                            else agent book_order),
             event_good = product_name b,
             event_quantity = min \<bar>quantity incoming_order\<bar> \<bar>quantity book_order\<bar>,
             event_price = price book_order, event_step = 0\<rparr>] \<and>
         num_transactions b' = num_transactions b + 1"
  using execute_Inr [OF assms] by simp

theorem execute_settlement_witness:
  "(case execute ledger_api rich (book_after [Order ''G'' (Fin 10) 3 (Agent 0)])
          \<lparr>good = ''G'', price = Fin 9, quantity = - 5, agent = Agent 1, order_id = Some 1\<rparr>
          \<lparr>good = ''G'', price = Fin 10, quantity = 3, agent = Agent 0, order_id = Some 0\<rparr> of
      Inl e \<Rightarrow> False
    | Inr (r, L', b') \<Rightarrow>
        r \<and> L' (Agent 0) ''capital'' = 90 \<and> L' (Agent 0) ''G'' = 103 \<and>
        L' (Agent 1) ''capital'' = 110 \<and> L' (Agent 1) ''G'' = 97 \<and>
        rows (history b') =
          [\<lparr>transaction_id = 0, row_price = Fin 10, row_quantity = 3,
            buyer = ''alice'', seller = ''bob''\<rparr>] \<and>
        event_history b' =
          [\<lparr>seller_agent = Agent 1, buyer_agent = Agent 0, event_good = ''G'',
            event_quantity = 3, event_price = Fin 10, event_step = 0\<rparr>] \<and>
        num_transactions b' = 1)"
proof -
  let ?E = "execute ledger_api rich (book_after [Order ''G'' (Fin 10) 3 (Agent 0)])
          \<lparr>good = ''G'', price = Fin 9, quantity = - 5, agent = Agent 1, order_id = Some 1\<rparr>
          \<lparr>good = ''G'', price = Fin 10, quantity = 3, agent = Agent 0, order_id = Some 0\<rparr>"
  have e: "?E = Inr (fst (projr ?E), fst (snd (projr ?E)), snd (snd (projr ?E)))"
    by (simp add: eval_simps)
  show ?thesis
    using execute_settlement [OF e] by (simp add: eval_simps)
qed

subsection \<open>The cached best orders between operations\<close>

text \<open>
  C6. The cached best bid is to be the highest resting bid, and the placeholder at
  \<open>-\<infinity>\<close> when the buy side is empty. \<^verbatim>\<open>add\<close> refreshes a cached order only at
  the end of a legitimate admission and only for a side that is not empty. After a
  bid of agent 0 at 10 was matched by a sell of agent 1 the buy side is empty, the
  cached bid is still the order at 10 and \<^verbatim>\<open>step\<close> appends 10 to the series. After
  bids at 10 (agent 0) and 5 (agent 1) and an order of agent 0 with quantity 0, the
  only resting bid is the one at 5 and the cached bid is the removed one at 10.
\<close>

theorem cached_best_bid_is_stale:
  "reachable ledger_api
     (book_after [Order ''G'' (Fin 10) 3 (Agent 0), Order ''G'' (Fin 9) (- 3) (Agent 1)])
   \<and> buy_orders
       (book_after [Order ''G'' (Fin 10) 3 (Agent 0), Order ''G'' (Fin 9) (- 3) (Agent 1)]) = []
   \<and> price (highest_bid_order
       (book_after [Order ''G'' (Fin 10) 3 (Agent 0), Order ''G'' (Fin 9) (- 3) (Agent 1)]))
     = Fin 10
   \<and> best_bid_history (OrderBook_step
       (book_after [Order ''G'' (Fin 10) 3 (Agent 0), Order ''G'' (Fin 9) (- 3) (Agent 1)]))
     = [Fin 10]
   \<and> reachable ledger_api
       (book_after [Order ''G'' (Fin 10) 1 (Agent 0), Order ''G'' (Fin 5) 1 (Agent 1),
                    Order ''G'' (Fin 10) 0 (Agent 0)])
   \<and> map (\<lambda>x. (price x, agent x)) (buy_orders
       (book_after [Order ''G'' (Fin 10) 1 (Agent 0), Order ''G'' (Fin 5) 1 (Agent 1),
                    Order ''G'' (Fin 10) 0 (Agent 0)]))
     = [(Fin 5, Agent 1)]
   \<and> (price (highest_bid_order
         (book_after [Order ''G'' (Fin 10) 1 (Agent 0), Order ''G'' (Fin 5) 1 (Agent 1),
                      Order ''G'' (Fin 10) 0 (Agent 0)])),
       agent (highest_bid_order
         (book_after [Order ''G'' (Fin 10) 1 (Agent 0), Order ''G'' (Fin 5) 1 (Agent 1),
                      Order ''G'' (Fin 10) 0 (Agent 0)])))
     = (Fin 10, Agent 0)"
  using reachable_book_after [of "[Order ''G'' (Fin 10) 3 (Agent 0), Order ''G'' (Fin 9) (- 3) (Agent 1)]"]
    reachable_book_after [of "[Order ''G'' (Fin 10) 1 (Agent 0), Order ''G'' (Fin 5) 1 (Agent 1),
                    Order ''G'' (Fin 10) 0 (Agent 0)]"]
  by (simp add: eval_simps OrderBook_step_def)

subsection \<open>Illegitimate orders\<close>

text \<open>
  C7. In a reachable state, \<^verbatim>\<open>add\<close> of an order that fails the legitimacy check
  returns without an error; the inventories are unchanged; the book is unchanged but
  for the order counter and for the resting orders of the submitting agent, which are
  removed from both sides. So the order is neither inserted nor matched, and no order
  of the agent rests afterwards.
\<close>

theorem illegitimate_order_dropped:
  assumes "reachable A b"
    and "\<not> is_order_legitimate A L b ord (0 \<le> quantity ord)"
  shows "OrderBook_add A L b ord =
           Inr (L, b\<lparr>order_count := order_count b + 1,
                     sell_orders := filter (\<lambda>x. agent x \<noteq> agent ord) (sell_orders b),
                     buy_orders := filter (\<lambda>x. agent x \<noteq> agent ord) (buy_orders b)\<rparr>) \<and>
         resting_orders_of
           (b\<lparr>order_count := order_count b + 1,
              sell_orders := filter (\<lambda>x. agent x \<noteq> agent ord) (sell_orders b),
              buy_orders := filter (\<lambda>x. agent x \<noteq> agent ord) (buy_orders b)\<rparr>) (agent ord) = []"
proof -
  from assms(1) have "book_inv b" by (rule reachable_book_inv)
  then have "distinct (map agent (buy_orders b @ sell_orders b))"
    by (simp add: book_inv_def weak_inv_def)
  then have "should_remove_existing_order (b\<lparr>order_count := order_count b + 1\<rparr>) ord =
      b\<lparr>order_count := order_count b + 1,
        sell_orders := filter (\<lambda>x. agent x \<noteq> agent ord) (sell_orders b),
        buy_orders := filter (\<lambda>x. agent x \<noteq> agent ord) (buy_orders b)\<rparr>"
    by (simp add: should_remove_existing_order_filter)
  with assms(2) show ?thesis
    by (simp add: OrderBook_add_eq Let_def resting_orders_of_def filter_empty_conv)
qed

theorem illegitimate_order_dropped_witness:
  "buy_orders (book_after [Order ''G'' (Fin 10) 3 (Agent 0)]) =
     [\<lparr>good = ''G'', price = Fin 10, quantity = 3, agent = Agent 0, order_id = Some 0\<rparr>]
   \<and> \<not> is_order_legitimate ledger_api rich (book_after [Order ''G'' (Fin 10) 3 (Agent 0)])
         (Order ''G'' (Fin 101) 1 (Agent 0)) True
   \<and> OrderBook_add ledger_api rich (book_after [Order ''G'' (Fin 10) 3 (Agent 0)])
       (Order ''G'' (Fin 101) 1 (Agent 0)) =
     Inr (rich, (book_after [Order ''G'' (Fin 10) 3 (Agent 0)])
                  \<lparr>order_count := 2, sell_orders := [], buy_orders := []\<rparr>)"
  using illegitimate_order_dropped [where A = ledger_api and L = rich
      and b = "book_after [Order ''G'' (Fin 10) 3 (Agent 0)]"
      and ord = "Order ''G'' (Fin 101) 1 (Agent 0)", OF reachable_book_after]
  by (simp add: eval_simps)

subsection \<open>The order of the two sides\<close>

text \<open>
  C8. In every reachable state the buy side is in descending order of price and the
  sell side in ascending order, orders of equal price standing in the order of their
  admission; the removal of an agent's orders keeps both.
\<close>

theorem sides_ordered:
  assumes "reachable A b"
  shows "descending_by_price (buy_orders b) \<and> ascending_by_price (sell_orders b) \<and>
         descending_by_price (buy_orders (should_remove_existing_order b ord)) \<and>
         ascending_by_price (sell_orders (should_remove_existing_order b ord))"
proof -
  from assms have inv: "book_inv b" by (rule reachable_book_inv)
  then have "book_inv (should_remove_existing_order (b\<lparr>order_count := order_count b + 1\<rparr>) ord)"
    by (rule book_inv_purged)
  moreover have "buy_orders (should_remove_existing_order (b\<lparr>order_count := order_count b + 1\<rparr>) ord)
      = buy_orders (should_remove_existing_order b ord)"
    "sell_orders (should_remove_existing_order (b\<lparr>order_count := order_count b + 1\<rparr>) ord)
      = sell_orders (should_remove_existing_order b ord)"
    by (simp_all add: should_remove_existing_order_def Let_def)
  ultimately show ?thesis using inv
    by (simp add: book_inv_def weak_inv_def descending_by_price_iff ascending_by_price_iff)
qed

theorem sides_ordered_witness:
  "map (\<lambda>x. (price x, order_id x))
     (buy_orders (book_after [Order ''G'' (Fin 10) 4 (Agent 0), Order ''G'' (Fin 12) 1 (Agent 1),
        Order ''G'' (Fin 10) 2 (Agent 2), Order ''G'' (Fin 12) 7 (Agent 3),
        Order ''G'' (Fin 20) (- 1) (Agent 4), Order ''G'' (Fin 15) (- 1) (Agent 5),
        Order ''G'' (Fin 20) (- 1) (Agent 6)]))
   = [(Fin 12, Some 1), (Fin 12, Some 3), (Fin 10, Some 0), (Fin 10, Some 2)]
   \<and> map (\<lambda>x. (price x, order_id x))
     (sell_orders (book_after [Order ''G'' (Fin 10) 4 (Agent 0), Order ''G'' (Fin 12) 1 (Agent 1),
        Order ''G'' (Fin 10) 2 (Agent 2), Order ''G'' (Fin 12) 7 (Agent 3),
        Order ''G'' (Fin 20) (- 1) (Agent 4), Order ''G'' (Fin 15) (- 1) (Agent 5),
        Order ''G'' (Fin 20) (- 1) (Agent 6)]))
   = [(Fin 15, Some 5), (Fin 20, Some 4), (Fin 20, Some 6)]
   \<and> descending_by_price
     (buy_orders (book_after [Order ''G'' (Fin 10) 4 (Agent 0), Order ''G'' (Fin 12) 1 (Agent 1),
        Order ''G'' (Fin 10) 2 (Agent 2), Order ''G'' (Fin 12) 7 (Agent 3),
        Order ''G'' (Fin 20) (- 1) (Agent 4), Order ''G'' (Fin 15) (- 1) (Agent 5),
        Order ''G'' (Fin 20) (- 1) (Agent 6)]))
   \<and> ascending_by_price
     (sell_orders (book_after [Order ''G'' (Fin 10) 4 (Agent 0), Order ''G'' (Fin 12) 1 (Agent 1),
        Order ''G'' (Fin 10) 2 (Agent 2), Order ''G'' (Fin 12) 7 (Agent 3),
        Order ''G'' (Fin 20) (- 1) (Agent 4), Order ''G'' (Fin 15) (- 1) (Agent 5),
        Order ''G'' (Fin 20) (- 1) (Agent 6)]))"
proof -
  let ?ords = "[Order ''G'' (Fin 10) 4 (Agent 0), Order ''G'' (Fin 12) 1 (Agent 1),
        Order ''G'' (Fin 10) 2 (Agent 2), Order ''G'' (Fin 12) 7 (Agent 3),
        Order ''G'' (Fin 20) (- 1) (Agent 4), Order ''G'' (Fin 15) (- 1) (Agent 5),
        Order ''G'' (Fin 20) (- 1) (Agent 6)]"
  have "map (\<lambda>x. (price x, order_id x)) (buy_orders (book_after ?ords))
        = [(Fin 12, Some 1), (Fin 12, Some 3), (Fin 10, Some 0), (Fin 10, Some 2)]"
    by (simp add: eval_simps)
  moreover have "map (\<lambda>x. (price x, order_id x)) (sell_orders (book_after ?ords))
        = [(Fin 15, Some 5), (Fin 20, Some 4), (Fin 20, Some 6)]"
    by (simp add: eval_simps)
  ultimately show ?thesis
    using sides_ordered [OF reachable_book_after, of ?ords] by simp
qed

subsection \<open>Reset\<close>

text \<open>
  C9. After \<^verbatim>\<open>reset\<close> no entry from before is to remain in the best-bid and best-ask
  series and in the event log. \<^verbatim>\<open>reset\<close> assigns neither of the three attributes
  (\<open>reset_clears\<close> lists what it does to each). After a trade and a step, the reset
  book still holds the snapshot 10 of the best bid, the snapshot of the best ask and
  the event of the trade.
\<close>

theorem reset_keeps_series:
  "best_bid_history (OrderBook_reset (OrderBook_step
     (book_after [Order ''G'' (Fin 10) 3 (Agent 0), Order ''G'' (Fin 9) (- 3) (Agent 1)])))
   = [Fin 10]
   \<and> best_ask_history (OrderBook_reset (OrderBook_step
     (book_after [Order ''G'' (Fin 10) 3 (Agent 0), Order ''G'' (Fin 9) (- 3) (Agent 1)])))
   = [PosInf]
   \<and> event_history (OrderBook_reset (OrderBook_step
     (book_after [Order ''G'' (Fin 10) 3 (Agent 0), Order ''G'' (Fin 9) (- 3) (Agent 1)])))
   = [\<lparr>seller_agent = Agent 1, buyer_agent = Agent 0, event_good = ''G'',
       event_quantity = 3, event_price = Fin 10, event_step = 0\<rparr>]
   \<and> reachable ledger_api (OrderBook_reset (OrderBook_step
     (book_after [Order ''G'' (Fin 10) 3 (Agent 0), Order ''G'' (Fin 9) (- 3) (Agent 1)])))"
  using reachable.reset [OF reachable.step [OF reachable_book_after
    [of "[Order ''G'' (Fin 10) 3 (Agent 0), Order ''G'' (Fin 9) (- 3) (Agent 1)]"]]]
  by (simp add: eval_simps OrderBook_step_def OrderBook_reset_def)

subsection \<open>The matched resting order\<close>

text \<open>
  C10. When a legitimate order crosses and \<^verbatim>\<open>add\<close> returns, the resting order it
  was matched with rested before and rests no more, whatever the two quantities are:
  the book has one order less, no order of the agent of the matched order rests, and
  the quantity of the new row is the minimum of the two magnitudes. In the witness a
  bid for four units is matched by a sell of one unit and leaves the book.
\<close>

theorem maker_removed_entirely:
  assumes "reachable A b"
    and "OrderBook_add A L b ord = Inr (L', b')"
    and "is_order_legitimate A L b ord (0 \<le> quantity ord)"
    and "crosses (should_remove_existing_order b ord) ord"
  shows "matched_order b ord \<in> set (buy_orders b @ sell_orders b) \<and>
         matched_order b ord \<notin> set (buy_orders b' @ sell_orders b') \<and>
         resting_orders_of b' (agent (matched_order b ord)) = [] \<and>
         length (buy_orders b' @ sell_orders b') + 1 =
           length (buy_orders (should_remove_existing_order b ord) @
                   sell_orders (should_remove_existing_order b ord)) \<and>
         map row_quantity (rows (history b')) =
           map row_quantity (rows (history b)) @
             [min \<bar>quantity ord\<bar> \<bar>quantity (matched_order b ord)\<bar>]"
proof -
  let ?m = "matched_order b ord"
  let ?b2 = "should_remove_existing_order b ord"
  from assms(1) have inv: "book_inv b" by (rule reachable_book_inv)
  then have "book_inv (should_remove_existing_order (b\<lparr>order_count := order_count b + 1\<rparr>) ord)"
    by (rule book_inv_purged)
  then have d2: "distinct (map agent (buy_orders ?b2 @ sell_orders ?b2))"
    by (simp add: book_inv_def weak_inv_def purged_count_irrelevant)
  then have inj: "inj_on agent (set (buy_orders ?b2 @ sell_orders ?b2))"
    and dist: "distinct (buy_orders ?b2 @ sell_orders ?b2)"
    by (simp_all only: distinct_map)
  have lists: "if 0 \<le> quantity ord
         then ?m \<in> set (sell_orders ?b2) \<and>
              buy_orders b' = sorted_descending (buy_orders ?b2) \<and>
              sell_orders b' = sorted_ascending (remove1 ?m (sell_orders ?b2))
         else ?m \<in> set (buy_orders ?b2) \<and>
              sell_orders b' = sorted_ascending (sell_orders ?b2) \<and>
              buy_orders b' = sorted_descending (remove1 ?m (buy_orders ?b2))"
    using assms(2-4) by (rule add_executed_lists)
  have was: "?m \<in> set (buy_orders ?b2 @ sell_orders ?b2)"
    using lists by (auto split: if_splits)
  then have before: "?m \<in> set (buy_orders b @ sell_orders b)"
    by (auto simp: purged_lists [OF inv])
  have rest: "set (buy_orders b' @ sell_orders b') = set (buy_orders ?b2 @ sell_orders ?b2) - {?m}"
    using lists dist
    by (auto simp: set_sorted_descending set_sorted_ascending split: if_splits)
  then have notin: "?m \<notin> set (buy_orders b' @ sell_orders b')" by blast
  have "\<forall>x \<in> set (buy_orders b') \<union> set (sell_orders b'). agent x \<noteq> agent ?m"
  proof
    fix x assume "x \<in> set (buy_orders b') \<union> set (sell_orders b')"
    with rest have "x \<in> set (buy_orders ?b2 @ sell_orders ?b2)" "x \<noteq> ?m" by auto
    with inj was show "agent x \<noteq> agent ?m" by (auto dest: inj_onD)
  qed
  then have none: "resting_orders_of b' (agent ?m) = []"
    unfolding no_agent_after_sort .
  have ms: "mset (buy_orders b' @ sell_orders b') + {#?m#} =
            mset (buy_orders ?b2 @ sell_orders ?b2)"
    using lists
    by (auto simp: mset_sorted_descending mset_sorted_ascending split: if_splits)
  have len: "length (buy_orders b' @ sell_orders b') + 1 =
             length (buy_orders ?b2 @ sell_orders ?b2)"
    using arg_cong [OF ms, of size] by (simp del: mset_append)
  from before notin none len add_executed_records(2) [OF assms(2-4)] show ?thesis by simp
qed

theorem maker_removed_entirely_witness:
  "OrderBook_add ledger_api (ledger_after [Order ''G'' (Fin 10) 4 (Agent 0)])
       (book_after [Order ''G'' (Fin 10) 4 (Agent 0)]) (Order ''G'' (Fin 9) (- 1) (Agent 1)) =
     Inr (ledger_after [Order ''G'' (Fin 10) 4 (Agent 0), Order ''G'' (Fin 9) (- 1) (Agent 1)],
          book_after [Order ''G'' (Fin 10) 4 (Agent 0), Order ''G'' (Fin 9) (- 1) (Agent 1)])
   \<and> get_full_orderbook (book_after [Order ''G'' (Fin 10) 4 (Agent 0)]) = [(Fin 10, 4)]
   \<and> get_full_orderbook
       (book_after [Order ''G'' (Fin 10) 4 (Agent 0), Order ''G'' (Fin 9) (- 1) (Agent 1)]) = []
   \<and> map row_quantity (rows (history
       (book_after [Order ''G'' (Fin 10) 4 (Agent 0), Order ''G'' (Fin 9) (- 1) (Agent 1)]))) = [1]
   \<and> resting_orders_of
       (book_after [Order ''G'' (Fin 10) 4 (Agent 0), Order ''G'' (Fin 9) (- 1) (Agent 1)])
       (Agent 0) = []"
  using maker_removed_entirely [where A = ledger_api
      and L = "ledger_after [Order ''G'' (Fin 10) 4 (Agent 0)]"
      and b = "book_after [Order ''G'' (Fin 10) 4 (Agent 0)]"
      and ord = "Order ''G'' (Fin 9) (- 1) (Agent 1)"
      and L' = "ledger_after [Order ''G'' (Fin 10) 4 (Agent 0), Order ''G'' (Fin 9) (- 1) (Agent 1)]"
      and b' = "book_after [Order ''G'' (Fin 10) 4 (Agent 0), Order ''G'' (Fin 9) (- 1) (Agent 1)]",
      OF reachable_book_after]
  by (simp add: eval_simps get_full_orderbook_def crosses_def matched_order_def
      resting_orders_of_def)

end
